theory Spec2Isabelle
  imports Main "HOL-Library.Word"
begin

unbundle bit_operations_syntax

section \<open>The XBee Series 1 codec of \<^verbatim>\<open>xbee1.py\<close>\<close>

text \<open>
  The module is Python 2: a \<^verbatim>\<open>str\<close> is a sequence of bytes, \<^verbatim>\<open>data[0]\<close> is a
  one-byte \<^verbatim>\<open>str\<close>, and \<^verbatim>\<open>ord\<close> reads such a byte as a number in 0..255.
  Byte strings are modelled as \<^typ>\<open>string\<close> (a list of 8-bit characters).
\<close>

subsection \<open>Byte strings\<close>

type_synonym bytes = string

definition ord :: "char \<Rightarrow> nat" where
  "ord c = of_char c"

text \<open>
  The slice \<^verbatim>\<open>data[lo:hi]\<close> for indices \<open>0 \<le> lo \<le> hi\<close>: it never raises, and it is
  shorter than \<open>hi - lo\<close> when the string ends before \<open>hi\<close>.
\<close>

definition subrange :: "bytes \<Rightarrow> nat \<Rightarrow> nat \<Rightarrow> bytes" where
  "subrange data lo hi = take (hi - lo) (drop lo data)"

subsection \<open>Exceptions\<close>

text \<open>
  Every \<^verbatim>\<open>raise\<close> of the module, and every built-in operation of it that can raise, is a
  value of type \<open>error\<close>. The exception class is the constructor; the argument of
  \<^verbatim>\<open>KeyError\<close> and \<^verbatim>\<open>ValueError\<close> is the message, one constructor per message template of
  the source, carrying the values the template is formatted with.
\<close>

datatype message =
    Key string
      \<comment> \<open>a failed dictionary lookup \<^verbatim>\<open>d[k]\<close>: the key\<close>
  | Field_not_provided string nat
      \<comment> \<open>\<^verbatim>\<open>"The expected field %s of length %d was not provided"\<close>\<close>
  | Not_bytes_long nat
      \<comment> \<open>\<^verbatim>\<open>"The data provided was not %d bytes long"\<close>\<close>
  | Unrecognized_id bytes
      \<comment> \<open>\<^verbatim>\<open>"Unrecognized response packet with id byte %s"\<close>\<close>
  | Shorter_than_expected
      \<comment> \<open>\<^verbatim>\<open>"Response packet was shorter than expected"\<close>\<close>
  | Longer_than_expected
      \<comment> \<open>\<^verbatim>\<open>"Response packet was longer than expected"\<close>\<close>

datatype error =
    KeyError message
  | ValueError message
  | IndexError
      \<comment> \<open>\<^verbatim>\<open>s[i]\<close> with \<open>i\<close> beyond the end of the string\<close>
  | StructError
      \<comment> \<open>\<^verbatim>\<open>struct.error\<close>: \<^verbatim>\<open>struct.unpack\<close> on a string of the wrong length\<close>

text \<open>
  The names the specification gives to the failures, as abbreviations of the exceptions
  the module raises at the corresponding place.
\<close>

abbreviation UnknownCommand :: "string \<Rightarrow> error" where
  "UnknownCommand cmd \<equiv> KeyError (Key cmd)"

abbreviation MissingField :: "string \<Rightarrow> nat \<Rightarrow> error" where
  "MissingField name expected \<equiv> KeyError (Field_not_provided name expected)"

abbreviation LengthMismatch :: "nat \<Rightarrow> error" where
  "LengthMismatch expected \<equiv> ValueError (Not_bytes_long expected)"

abbreviation UnknownResponseId :: "bytes \<Rightarrow> error" where
  "UnknownResponseId b \<equiv> KeyError (Unrecognized_id b)"

abbreviation Truncated :: error where
  "Truncated \<equiv> ValueError Shorter_than_expected"

abbreviation Overlong :: error where
  "Overlong \<equiv> ValueError Longer_than_expected"

subsection \<open>The layout tables\<close>

text \<open>
  A packet specification is a dictionary with the two reserved keys \<^verbatim>\<open>'id'\<close> and
  \<^verbatim>\<open>'order'\<close> and one key per field, whose value is the field's length in bytes or
  \<^verbatim>\<open>None\<close> for a field of variable length. The record keeps the two reserved entries
  apart from the field entries, since their values have other types; the field entries
  stay a dictionary (an association list read with \<^const>\<open>map_of\<close>), so a lookup of a
  name that has no entry is still the \<^verbatim>\<open>KeyError\<close> of the source.
\<close>

record packet_spec =
  id_entry :: string
  field_entries :: "(string \<times> nat option) list"
  order_entry :: "string list"

definition api_commands :: "(string \<times> packet_spec) list" where
  "api_commands =
     [(''at'',
        \<lparr>id_entry = [CHR 0x08],
         field_entries = [(''frame_id'', Some 1), (''command'', Some 2), (''parameter'', None)],
         order_entry = [''frame_id'', ''command'', ''parameter'']\<rparr>)]"

definition api_responses :: "(bytes \<times> packet_spec) list" where
  "api_responses =
     [([CHR 0x8A],
        \<lparr>id_entry = ''status'',
         field_entries = [(''status'', Some 1)],
         order_entry = [''status'']\<rparr>),
      ([CHR 0x88],
        \<lparr>id_entry = ''at_response'',
         field_entries = [(''frame_id'', Some 1), (''command'', Some 2), (''status'', Some 1),
                          (''parameter'', None)],
         order_entry = [''frame_id'', ''command'', ''status'', ''parameter'']\<rparr>)]"

definition reserved_names :: "string list" where
  "reserved_names = [''id'', ''order'']"

subsection \<open>\<^verbatim>\<open>build_command\<close>\<close>

text \<open>
  The keyword arguments are a dictionary from names to byte strings. Inside the loop
  \<^verbatim>\<open>data\<close> is either such a string or \<^verbatim>\<open>None\<close>, hence a \<^typ>\<open>bytes option\<close>; the test
  \<^verbatim>\<open>if data\<close> is false for \<^verbatim>\<open>None\<close> and for the empty string.
\<close>

text \<open>
  The \<^verbatim>\<open>try\<close>/\<^verbatim>\<open>except KeyError\<close> block that fetches \<^verbatim>\<open>kwargs[param]\<close>: a missing
  argument is an error only when the field has a length.
\<close>

definition fetch :: "packet_spec \<Rightarrow> (string \<rightharpoonup> bytes) \<Rightarrow> string \<Rightarrow> error + bytes option" where
  "fetch cmd_spec kwargs param =
     (case kwargs param of
        Some d \<Rightarrow> Inr (Some d)
      | None \<Rightarrow>
          (case map_of (field_entries cmd_spec) param of
             None \<Rightarrow> Inl (KeyError (Key param))
           | Some (Some n) \<Rightarrow> Inl (KeyError (Field_not_provided param n))
           | Some None \<Rightarrow> Inr None))"

text \<open>
  The test \<^verbatim>\<open>if data and cmd_spec[param] and len(data) != cmd_spec[param]\<close>, evaluated
  from left to right: \<^verbatim>\<open>data\<close> is false when it is \<^verbatim>\<open>None\<close> or empty, and only
  otherwise is \<^verbatim>\<open>cmd_spec[param]\<close> looked up, which is false when it is \<^verbatim>\<open>None\<close> or 0.
\<close>

definition check_length :: "packet_spec \<Rightarrow> string \<Rightarrow> bytes option \<Rightarrow> error + unit" where
  "check_length cmd_spec param data =
     (case data of
        None \<Rightarrow> Inr ()
      | Some d \<Rightarrow>
          if d = [] then Inr ()
          else
            (case map_of (field_entries cmd_spec) param of
               None \<Rightarrow> Inl (KeyError (Key param))
             | Some None \<Rightarrow> Inr ()
             | Some (Some n) \<Rightarrow>
                 if n \<noteq> 0 \<and> length d \<noteq> n then Inl (ValueError (Not_bytes_long n))
                 else Inr ()))"

text \<open>The statement \<^verbatim>\<open>if data: packet += data\<close>.\<close>

definition add_data :: "bytes \<Rightarrow> bytes option \<Rightarrow> bytes" where
  "add_data packet data =
     (case data of None \<Rightarrow> packet | Some d \<Rightarrow> if d \<noteq> [] then packet @ d else packet)"

text \<open>The loop \<^verbatim>\<open>for param in cmd_spec['order']\<close>, with the packet built so far.\<close>

fun build_params ::
  "packet_spec \<Rightarrow> (string \<rightharpoonup> bytes) \<Rightarrow> string list \<Rightarrow> bytes \<Rightarrow> error + bytes" where
  "build_params cmd_spec kwargs [] packet = Inr packet"
| "build_params cmd_spec kwargs (param # rest) packet =
     (if param \<in> set reserved_names then build_params cmd_spec kwargs rest packet
      else
        (case fetch cmd_spec kwargs param of
           Inl e \<Rightarrow> Inl e
         | Inr data \<Rightarrow>
             (case check_length cmd_spec param data of
                Inl e \<Rightarrow> Inl e
              | Inr _ \<Rightarrow> build_params cmd_spec kwargs rest (add_data packet data))))"

definition build_command :: "string \<Rightarrow> (string \<rightharpoonup> bytes) \<Rightarrow> error + bytes" where
  "build_command cmd kwargs =
     (case map_of api_commands cmd of
        None \<Rightarrow> Inl (KeyError (Key cmd))
      | Some cmd_spec \<Rightarrow> build_params cmd_spec kwargs (order_entry cmd_spec) (id_entry cmd_spec))"

subsection \<open>\<^verbatim>\<open>split_response\<close>\<close>

text \<open>
  The result dictionary maps \<^verbatim>\<open>'id'\<close> to the name of the response and each field name to
  its bytes: all values are strings. The loop \<^verbatim>\<open>for param in packet_spec['order']\<close>
  carries the index and the dictionary; a field of variable length ends it
  (\<^verbatim>\<open>break\<close>).
\<close>

fun split_params ::
  "packet_spec \<Rightarrow> bytes \<Rightarrow> string list \<Rightarrow> nat \<Rightarrow> (string \<rightharpoonup> bytes)
     \<Rightarrow> error + (nat \<times> (string \<rightharpoonup> bytes))" where
  "split_params packet_spec data [] index info = Inr (index, info)"
| "split_params packet_spec data (param # rest) index info =
     (if param \<in> set reserved_names then split_params packet_spec data rest index info
      else
        (case map_of (field_entries packet_spec) param of
           None \<Rightarrow> Inl (KeyError (Key param))
         | Some (Some field_len) \<Rightarrow>
             if index + field_len > length data then Inl (ValueError Shorter_than_expected)
             else split_params packet_spec data rest (index + field_len)
                    (info(param \<mapsto> subrange data index (index + field_len)))
         | Some None \<Rightarrow>
             (let field = drop index data in
              if field \<noteq> [] then Inr (index + length field, info(param \<mapsto> field))
              else Inr (index, info))))"

definition split_response :: "bytes \<Rightarrow> error + (string \<rightharpoonup> bytes)" where
  "split_response data =
     (case data of
        [] \<Rightarrow> Inl IndexError
      | c # _ \<Rightarrow>
          (case map_of api_responses [c] of
             None \<Rightarrow> Inl (KeyError (Unrecognized_id [c]))
           | Some packet_spec \<Rightarrow>
               (case split_params packet_spec data (order_entry packet_spec) 1
                       [''id'' \<mapsto> id_entry packet_spec] of
                  Inl e \<Rightarrow> Inl e
                | Inr (index, info) \<Rightarrow>
                    if index < length data then Inl (ValueError Longer_than_expected)
                    else Inr info)))"

subsection \<open>\<^verbatim>\<open>parse_samples\<close>\<close>

text \<open>
  Indexing \<^verbatim>\<open>s[i]\<close> with \<open>i \<ge> 0\<close> raises \<^verbatim>\<open>IndexError\<close> beyond the end of the string.
\<close>

definition getitem :: "bytes \<Rightarrow> nat \<Rightarrow> error + char" where
  "getitem s i = (if i < length s then Inr (s ! i) else Inl IndexError)"

text \<open>
  \<^verbatim>\<open>struct.unpack("> h", value_raw)[0]\<close>: a big-endian signed 16-bit integer, from a string
  of exactly two bytes; any other length raises \<^verbatim>\<open>struct.error\<close>.
\<close>

definition unpack_h :: "bytes \<Rightarrow> error + int" where
  "unpack_h value_raw =
     (case value_raw of
        [msb, lsb] \<Rightarrow> Inr (sint (word_of_nat (ord msb * 256 + ord lsb) :: 16 word))
      | _ \<Rightarrow> Inl StructError)"

text \<open>
  The format \<^verbatim>\<open>"%d"\<close> of a number that is not negative: its decimal digits.
\<close>

fun format_d :: "nat \<Rightarrow> string" where
  "format_d n =
     (if n < 10 then [''0123456789'' ! n]
      else format_d (n div 10) @ [''0123456789'' ! (n mod 10)])"

declare format_d.simps [simp del]

text \<open>
  A sample is a dictionary from channel names to \<^verbatim>\<open>True\<close>/\<^verbatim>\<open>False\<close> (a digital line)
  or to an integer (an analog line).
\<close>

datatype io_value = PyBool bool | PyInt int

type_synonym sample = "string \<rightharpoonup> io_value"

text \<open>
  The two loops over the enable flags: \<^verbatim>\<open>for dio in range(0,8)\<close> starting with
  \<^verbatim>\<open>i = 1\<close> and \<^verbatim>\<open>for adc in range(0,6)\<close> starting with \<^verbatim>\<open>i = 2\<close>; both test
  \<^verbatim>\<open>byte & i\<close>, append the line number when it is not zero, and double \<^verbatim>\<open>i\<close>.
\<close>

fun check_flags :: "nat \<Rightarrow> nat list \<Rightarrow> nat \<Rightarrow> nat list \<Rightarrow> nat list" where
  "check_flags byte_data [] i enabled = enabled"
| "check_flags byte_data (line # lines) i enabled =
     check_flags byte_data lines (i * 2)
       (if byte_data AND i \<noteq> 0 then enabled @ [line] else enabled)"

text \<open>
  The header: the number of samples and the lists of enabled digital and analog lines.
  \<^verbatim>\<open>data[0]\<close> and \<^verbatim>\<open>sources_raw[1]\<close> raise \<^verbatim>\<open>IndexError\<close> on a payload of fewer than
  three bytes.
\<close>

definition parse_header :: "bytes \<Rightarrow> error + (nat \<times> nat list \<times> nat list)" where
  "parse_header data =
     (case getitem data 0 of
        Inl e \<Rightarrow> Inl e
      | Inr len_raw \<Rightarrow>
          (let len_samples = ord len_raw;
               sources_raw = subrange data 1 3
           in case getitem sources_raw 1 of
                Inl e \<Rightarrow> Inl e
              | Inr raw_2 \<Rightarrow>
                  (let byte_2_data = ord raw_2;
                       dio_enabled = check_flags byte_2_data [0..<8] 1 []
                   in case getitem sources_raw 0 of
                        Inl e \<Rightarrow> Inl e
                      | Inr raw_1 \<Rightarrow>
                          (let byte_1_data = ord raw_1;
                               dio_enabled =
                                 (if byte_1_data AND 1 \<noteq> 0 then dio_enabled @ [8]
                                  else dio_enabled);
                               adc_enabled = check_flags byte_1_data [0..<6] 2 []
                           in Inr (len_samples, dio_enabled, adc_enabled)))))"

text \<open>
  The loop \<^verbatim>\<open>for dio in dio_enabled\<close> over the two bytes \<^verbatim>\<open>values\<close> (fewer when the payload
  ends early: the slice does not raise, the indexing does).
\<close>

fun read_dio :: "bytes \<Rightarrow> nat list \<Rightarrow> sample \<Rightarrow> error + sample" where
  "read_dio values [] sample = Inr sample"
| "read_dio values (dio # rest) sample =
     (if dio > 7 then
        (case getitem values 0 of
           Inl e \<Rightarrow> Inl e
         | Inr v \<Rightarrow>
             read_dio values rest
               (sample(''dio-'' @ format_d dio \<mapsto> PyBool (ord v AND 2 ^ (dio - 8) \<noteq> 0))))
      else
        (case getitem values 1 of
           Inl e \<Rightarrow> Inl e
         | Inr v \<Rightarrow>
             read_dio values rest
               (sample(''dio-'' @ format_d dio \<mapsto> PyBool (ord v AND 2 ^ dio \<noteq> 0)))))"

text \<open>The loop \<^verbatim>\<open>for adc in adc_enabled\<close>, which advances \<^verbatim>\<open>byte_pos\<close> by 2 per line.\<close>

fun read_adc :: "bytes \<Rightarrow> nat list \<Rightarrow> nat \<Rightarrow> sample \<Rightarrow> error + (sample \<times> nat)" where
  "read_adc data [] byte_pos sample = Inr (sample, byte_pos)"
| "read_adc data (adc # rest) byte_pos sample =
     (case unpack_h (subrange data byte_pos (byte_pos + 2)) of
        Inl e \<Rightarrow> Inl e
      | Inr v \<Rightarrow>
          read_adc data rest (byte_pos + 2)
            (sample(''adc-'' @ format_d adc \<mapsto> PyInt (v AND 0x3FF))))"

text \<open>The body of the loop over the samples: one record, read at \<^verbatim>\<open>byte_pos\<close>.\<close>

definition read_sample ::
  "bytes \<Rightarrow> nat list \<Rightarrow> nat list \<Rightarrow> nat \<Rightarrow> error + (sample \<times> nat)" where
  "read_sample data dio_enabled adc_enabled byte_pos =
     (case (if dio_enabled \<noteq> [] then
              (case read_dio (subrange data byte_pos (byte_pos + 2)) dio_enabled Map.empty of
                 Inl e \<Rightarrow> Inl e
               | Inr sample \<Rightarrow> Inr (sample, byte_pos + 2))
            else Inr (Map.empty, byte_pos)) of
        Inl e \<Rightarrow> Inl e
      | Inr (sample, byte_pos) \<Rightarrow>
          if adc_enabled \<noteq> [] then read_adc data adc_enabled byte_pos sample
          else Inr (sample, byte_pos))"

text \<open>
  The loop \<^verbatim>\<open>for i in range(0, len_samples)\<close>; the first argument counts the iterations
  that remain.
\<close>

fun read_samples ::
  "nat \<Rightarrow> bytes \<Rightarrow> nat list \<Rightarrow> nat list \<Rightarrow> nat \<Rightarrow> sample list \<Rightarrow> error + sample list" where
  "read_samples 0 data dio_enabled adc_enabled byte_pos samples = Inr samples"
| "read_samples (Suc n) data dio_enabled adc_enabled byte_pos samples =
     (case read_sample data dio_enabled adc_enabled byte_pos of
        Inl e \<Rightarrow> Inl e
      | Inr (sample, byte_pos') \<Rightarrow>
          read_samples n data dio_enabled adc_enabled byte_pos' (samples @ [sample]))"

definition parse_samples :: "bytes \<Rightarrow> error + sample list" where
  "parse_samples data =
     (case parse_header data of
        Inl e \<Rightarrow> Inl e
      | Inr (len_samples, dio_enabled, adc_enabled) \<Rightarrow>
          read_samples len_samples data dio_enabled adc_enabled 3 [])"

section \<open>Vocabulary of the specification\<close>

text \<open>
  The claims speak of the fixed-length fields of a layout, of their total length, and of
  a layout whose last field is of fixed length. These are read off a packet
  specification as follows: the fields are the names of \<^verbatim>\<open>'order'\<close> that are not
  reserved, in that order, and a field is of fixed length when its entry is a number.
\<close>

definition fixed_fields :: "packet_spec \<Rightarrow> (string \<times> nat) list" where
  "fixed_fields packet_spec =
     concat (map (\<lambda>param. case map_of (field_entries packet_spec) param of
                             Some (Some n) \<Rightarrow> [(param, n)]
                           | _ \<Rightarrow> [])
                 (filter (\<lambda>param. param \<notin> set reserved_names) (order_entry packet_spec)))"

definition fixed_total :: "packet_spec \<Rightarrow> nat" where
  "fixed_total packet_spec = sum_list (map snd (fixed_fields packet_spec))"

definition last_fixed :: "packet_spec \<Rightarrow> bool" where
  "last_fixed packet_spec =
     (case rev (order_entry packet_spec) of
        [] \<Rightarrow> False
      | param # _ \<Rightarrow>
          (case map_of (field_entries packet_spec) param of
             Some (Some n) \<Rightarrow> True
           | _ \<Rightarrow> False))"

text \<open>
  The encoder examines the fields in order and stops at the first one it rejects. A field
  lets the encoder pass on to the next one for certain when it is supplied as declared:
  a fixed-length field with a value of exactly the declared length, a field of variable
  length in any case.
\<close>

definition supplied_as_declared :: "packet_spec \<Rightarrow> (string \<rightharpoonup> bytes) \<Rightarrow> string \<Rightarrow> bool" where
  "supplied_as_declared cmd_spec kwargs param =
     (param \<in> set reserved_names \<or>
      (case map_of (field_entries cmd_spec) param of
         None \<Rightarrow> False
       | Some None \<Rightarrow> True
       | Some (Some n) \<Rightarrow> (case kwargs param of None \<Rightarrow> False | Some d \<Rightarrow> length d = n)))"

text \<open>
  The claims about the sample decoder speak of the lines the two mask bytes enable, of the
  size of a record, and of the readings a record holds. Byte 1 of the payload is the high
  byte of the mask and byte 2 the low byte. Bits 0 to 7 of the low byte enable the digital
  lines 0 to 7 and bit 0 of the high byte enables digital line 8; bits 1 to 6 of the high
  byte enable the analog lines 0 to 5. Both lists are in ascending order.
\<close>

definition digital_lines :: "bytes \<Rightarrow> nat list" where
  "digital_lines data =
     filter (\<lambda>n. bit (ord (data ! 2)) n) [0..<8] @ (if bit (ord (data ! 1)) 0 then [8] else [])"

definition analog_lines :: "bytes \<Rightarrow> nat list" where
  "analog_lines data = filter (\<lambda>n. bit (ord (data ! 1)) (Suc n)) [0..<6]"

text \<open>
  A record is two bytes for the digital lines, if any is enabled, and two bytes for each
  enabled analog line.
\<close>

definition digital_size :: "bytes \<Rightarrow> nat" where
  "digital_size data = (if digital_lines data = [] then 0 else 2)"

definition record_size :: "bytes \<Rightarrow> nat" where
  "record_size data = digital_size data + 2 * length (analog_lines data)"

text \<open>
  The state of digital line \<open>n\<close> in the two digital bytes at position \<open>p\<close>: bit \<open>n\<close> of the
  second byte for the lines 0 to 7, bit 0 of the first byte for line 8.
\<close>

definition digital_reading :: "bytes \<Rightarrow> nat \<Rightarrow> nat \<Rightarrow> bool" where
  "digital_reading data p n =
     (if n < 8 then bit (ord (data ! Suc p)) n else bit (ord (data ! p)) (n - 8))"

text \<open>
  Two bytes read as a big-endian signed 16-bit integer (two's complement, written out),
  and the analog reading in the two bytes at position \<open>p\<close>: that integer masked with
  \<^verbatim>\<open>0x3FF\<close>.
\<close>

definition signed16 :: "nat \<Rightarrow> nat \<Rightarrow> int" where
  "signed16 msb lsb =
     (if 256 * msb + lsb < 32768 then int (256 * msb + lsb) else int (256 * msb + lsb) - 65536)"

definition analog_reading :: "bytes \<Rightarrow> nat \<Rightarrow> int" where
  "analog_reading data p = signed16 (ord (data ! p)) (ord (data ! Suc p)) AND 0x3FF"

text \<open>The keys of a sample: \<^verbatim>\<open>"dio-%d" % dio\<close> and \<^verbatim>\<open>"adc-%d" % adc\<close>.\<close>

abbreviation dio_key :: "nat \<Rightarrow> string" where
  "dio_key n \<equiv> ''dio-'' @ format_d n"

abbreviation adc_key :: "nat \<Rightarrow> string" where
  "adc_key n \<equiv> ''adc-'' @ format_d n"

section \<open>The command encoder\<close>

subsection \<open>The loop over the fields\<close>

text \<open>Fields that are supplied as declared are passed; only the packet grows.\<close>

lemma build_params_prefix:
  assumes "\<forall>q\<in>set pre. supplied_as_declared cmd_spec kwargs q"
  shows "\<exists>packet'. build_params cmd_spec kwargs (pre @ rest) packet =
                     build_params cmd_spec kwargs rest packet'"
  using assms
proof (induction pre arbitrary: packet)
  case Nil
  then show ?case by auto
next
  case (Cons q pre)
  then have q: "supplied_as_declared cmd_spec kwargs q"
    and pre: "\<forall>q\<in>set pre. supplied_as_declared cmd_spec kwargs q" by simp_all
  from q have "\<exists>packet1. build_params cmd_spec kwargs ((q # pre) @ rest) packet =
                          build_params cmd_spec kwargs (pre @ rest) packet1"
    by (auto simp: supplied_as_declared_def fetch_def check_length_def
             split: option.splits)
  with Cons.IH [OF pre] show ?case by metis
qed

lemma build_params_missing:
  assumes "param \<notin> set reserved_names"
    and "map_of (field_entries cmd_spec) param = Some (Some n)"
    and "kwargs param = None"
  shows "build_params cmd_spec kwargs (param # post) packet = Inl (MissingField param n)"
  using assms by (simp add: fetch_def)

lemma build_params_mismatch:
  assumes "param \<notin> set reserved_names"
    and "map_of (field_entries cmd_spec) param = Some (Some n)" and "n \<noteq> 0"
    and "kwargs param = Some d" and "d \<noteq> []" and "length d \<noteq> n"
  shows "build_params cmd_spec kwargs (param # post) packet = Inl (LengthMismatch n)"
  using assms by (simp add: fetch_def check_length_def)

text \<open>
  The loop has no \<^verbatim>\<open>break\<close>: a field it would reject is either reached and rejected, or
  an earlier field is. In both cases nothing is returned.
\<close>

lemma build_params_no_output:
  assumes "param \<in> set params" and "param \<notin> set reserved_names"
    and "map_of (field_entries cmd_spec) param = Some (Some n)"
    and "kwargs param = None \<or>
         (\<exists>d. kwargs param = Some d \<and> d \<noteq> [] \<and> n \<noteq> 0 \<and> length d \<noteq> n)"
  shows "\<exists>e. build_params cmd_spec kwargs params packet = Inl e"
  using assms(1)
proof (induction params arbitrary: packet)
  case Nil
  then show ?case by simp
next
  case (Cons q params)
  show ?case
  proof (cases "q = param")
    case True
    from assms(4) show ?thesis
    proof
      assume "kwargs param = None"
      with assms(2,3)
      have "build_params cmd_spec kwargs (param # params) packet = Inl (MissingField param n)"
        by (rule build_params_missing)
      with True show ?thesis by blast
    next
      assume "\<exists>d. kwargs param = Some d \<and> d \<noteq> [] \<and> n \<noteq> 0 \<and> length d \<noteq> n"
      then obtain d where "n \<noteq> 0" "kwargs param = Some d" "d \<noteq> []" "length d \<noteq> n"
        by blast
      with assms(2,3)
      have "build_params cmd_spec kwargs (param # params) packet = Inl (LengthMismatch n)"
        by (rule build_params_mismatch)
      with True show ?thesis by blast
    qed
  next
    case False
    with Cons.prems have "param \<in> set params" by simp
    from Cons.IH [OF this] show ?thesis
      by (simp split: sum.splits)
  qed
qed

text \<open>The packet only ever grows at its end, so it keeps the identifier it starts with.\<close>

lemma build_params_extends:
  "build_params cmd_spec kwargs params packet = Inr out \<Longrightarrow> \<exists>suffix. out = packet @ suffix"
proof (induction params arbitrary: packet)
  case Nil
  then show ?case by simp
next
  case (Cons q params)
  then show ?case
    by (fastforce simp: add_data_def split: if_splits sum.splits option.splits)
qed

lemma api_commands_at:
  assumes "map_of api_commands cmd = Some cmd_spec"
  shows "cmd = ''at''" "id_entry cmd_spec = [CHR 0x08]"
  using assms by (auto simp: api_commands_def split: if_splits)

lemma api_commands_lengths:
  assumes "map_of api_commands cmd = Some cmd_spec"
    and "map_of (field_entries cmd_spec) param = Some (Some n)"
  shows "n \<noteq> 0"
  using assms by (auto simp: api_commands_def split: if_splits)

subsection \<open>A value of the wrong length\<close>

text \<open>
  Claim C3, as stated, fails in two ways. A fixed-length field supplied with the empty
  string passes the test \<^verbatim>\<open>if data and ...\<close>: the length is not compared, nothing is
  appended, and the encoder returns a packet without the field. And a field of the wrong
  length is not reported when an earlier field is absent: the encoder raises for that
  one first.
\<close>

theorem build_command_wrong_length_unreported:
  "build_command ''at'' [''frame_id'' \<mapsto> [], ''command'' \<mapsto> ''MY''] = Inr (CHR 0x08 # ''MY'') \<and>
   build_command ''at'' [''command'' \<mapsto> ''M''] = Inl (MissingField ''frame_id'' 1)"
  by (simp add: build_command_def api_commands_def reserved_names_def fetch_def
        check_length_def add_data_def)

text \<open>
  Claim C3, as amended. For every command of the table and all keyword arguments that
  supply, for some fixed-length field of the command, a value that is not empty and whose
  length differs from the declared one, encoding returns no packet; and when every field
  before that one is supplied as declared, the failure is the \<^verbatim>\<open>ValueError\<close>
  "The data provided was not n bytes long" with the declared length \<open>n\<close> of that field.
  Nothing is said of an empty value.
\<close>

theorem build_command_length_mismatch:
  assumes "map_of api_commands cmd = Some cmd_spec"
    and "order_entry cmd_spec = pre @ param # post"
    and "param \<notin> set reserved_names"
    and "map_of (field_entries cmd_spec) param = Some (Some n)"
    and "kwargs param = Some d" and "d \<noteq> []" and "length d \<noteq> n"
  shows "(\<exists>e. build_command cmd kwargs = Inl e) \<and>
         ((\<forall>q\<in>set pre. supplied_as_declared cmd_spec kwargs q) \<longrightarrow>
            build_command cmd kwargs = Inl (LengthMismatch n))"
proof
  from assms(1,4) have n: "n \<noteq> 0" by (rule api_commands_lengths)
  from assms(2) have "param \<in> set (order_entry cmd_spec)" by simp
  moreover from n assms(5,6,7)
  have "kwargs param = None \<or>
        (\<exists>d. kwargs param = Some d \<and> d \<noteq> [] \<and> n \<noteq> 0 \<and> length d \<noteq> n)"
    by simp
  ultimately
  have "\<exists>e. build_params cmd_spec kwargs (order_entry cmd_spec) (id_entry cmd_spec) = Inl e"
    using assms(3,4) by (intro build_params_no_output)
  with assms(1) show "\<exists>e. build_command cmd kwargs = Inl e"
    by (simp add: build_command_def)
  show "(\<forall>q\<in>set pre. supplied_as_declared cmd_spec kwargs q) \<longrightarrow>
            build_command cmd kwargs = Inl (LengthMismatch n)"
  proof
    assume "\<forall>q\<in>set pre. supplied_as_declared cmd_spec kwargs q"
    from build_params_prefix [OF this] obtain packet' where
      "build_params cmd_spec kwargs (pre @ param # post) (id_entry cmd_spec) =
       build_params cmd_spec kwargs (param # post) packet'" by blast
    also have "\<dots> = Inl (LengthMismatch n)"
      using assms(3,4) n assms(5,6,7) by (rule build_params_mismatch)
    finally show "build_command cmd kwargs = Inl (LengthMismatch n)"
      using assms(1,2) by (simp add: build_command_def)
  qed
qed

text \<open>
  The theorem at the call of the module's test,
  \<^verbatim>\<open>build_command("at", frame_id="AB", command="MY")\<close>.
\<close>

theorem build_command_length_mismatch_witness:
  "build_command ''at'' [''frame_id'' \<mapsto> ''AB'', ''command'' \<mapsto> ''MY''] = Inl (LengthMismatch 1)"
proof -
  let ?at = "\<lparr>id_entry = [CHR 0x08],
         field_entries = [(''frame_id'', Some 1), (''command'', Some 2), (''parameter'', None)],
         order_entry = [''frame_id'', ''command'', ''parameter'']\<rparr>"
  let ?kwargs = "[''frame_id'' \<mapsto> ''AB'', ''command'' \<mapsto> ''MY'']"
  have 1: "map_of api_commands ''at'' = Some ?at" by (simp add: api_commands_def)
  have 2: "order_entry ?at = [] @ ''frame_id'' # [''command'', ''parameter'']" by simp
  have 3: "''frame_id'' \<notin> set reserved_names" by (simp add: reserved_names_def)
  have 4: "map_of (field_entries ?at) ''frame_id'' = Some (Some 1)" by simp
  have 5: "?kwargs ''frame_id'' = Some ''AB''" "''AB'' \<noteq> []" "length ''AB'' \<noteq> 1" by simp_all
  have 6: "\<forall>q\<in>set []. supplied_as_declared ?at ?kwargs q" by simp
  from build_command_length_mismatch
      [where kwargs = ?kwargs and pre = "[]" and post = "[''command'', ''parameter'']",
       OF 1 2 3 4 5, THEN conjunct2, THEN mp, OF 6]
  show ?thesis .
qed

subsection \<open>A missing field\<close>

text \<open>
  Claim C5, as stated, fails: with \<^verbatim>\<open>command\<close> absent and \<^verbatim>\<open>frame_id\<close> two bytes long,
  the encoder raises the \<^verbatim>\<open>ValueError\<close> for \<^verbatim>\<open>frame_id\<close> and never looks at \<^verbatim>\<open>command\<close>.
\<close>

theorem build_command_missing_unreported:
  "build_command ''at'' [''frame_id'' \<mapsto> ''AB''] = Inl (LengthMismatch 1)"
  by (simp add: build_command_def api_commands_def reserved_names_def fetch_def
        check_length_def)

text \<open>
  Claim C5, as amended. For every command of the table and all keyword arguments in which
  some fixed-length field of the command is absent, encoding returns no packet; and when
  every field before that one is supplied as declared, the failure is the \<^verbatim>\<open>KeyError\<close>
  "The expected field ... of length ... was not provided" with the name and the declared
  length of that field.
\<close>

theorem build_command_missing_field:
  assumes "map_of api_commands cmd = Some cmd_spec"
    and "order_entry cmd_spec = pre @ param # post"
    and "param \<notin> set reserved_names"
    and "map_of (field_entries cmd_spec) param = Some (Some n)"
    and "kwargs param = None"
  shows "(\<exists>e. build_command cmd kwargs = Inl e) \<and>
         ((\<forall>q\<in>set pre. supplied_as_declared cmd_spec kwargs q) \<longrightarrow>
            build_command cmd kwargs = Inl (MissingField param n))"
proof
  from assms(2) have "param \<in> set (order_entry cmd_spec)" by simp
  from build_params_no_output [OF this assms(3,4)] assms(1,5)
  show "\<exists>e. build_command cmd kwargs = Inl e"
    by (simp add: build_command_def)
next
  show "(\<forall>q\<in>set pre. supplied_as_declared cmd_spec kwargs q) \<longrightarrow>
            build_command cmd kwargs = Inl (MissingField param n)"
  proof
    assume "\<forall>q\<in>set pre. supplied_as_declared cmd_spec kwargs q"
    from build_params_prefix [OF this] obtain packet' where
      "build_params cmd_spec kwargs (pre @ param # post) (id_entry cmd_spec) =
       build_params cmd_spec kwargs (param # post) packet'" by blast
    also have "\<dots> = Inl (MissingField param n)"
      using assms(3,4,5) by (rule build_params_missing)
    finally show "build_command cmd kwargs = Inl (MissingField param n)"
      using assms(1,2) by (simp add: build_command_def)
  qed
qed

text \<open>The theorem at \<^verbatim>\<open>build_command("at", frame_id="A")\<close>: \<^verbatim>\<open>command\<close> is missing.\<close>

theorem build_command_missing_field_witness:
  "build_command ''at'' [''frame_id'' \<mapsto> ''A''] = Inl (MissingField ''command'' 2)"
proof -
  let ?at = "\<lparr>id_entry = [CHR 0x08],
         field_entries = [(''frame_id'', Some 1), (''command'', Some 2), (''parameter'', None)],
         order_entry = [''frame_id'', ''command'', ''parameter'']\<rparr>"
  let ?kwargs = "[''frame_id'' \<mapsto> ''A'']"
  have 1: "map_of api_commands ''at'' = Some ?at" by (simp add: api_commands_def)
  have 2: "order_entry ?at = [''frame_id''] @ ''command'' # [''parameter'']" by simp
  have 3: "''command'' \<notin> set reserved_names" by (simp add: reserved_names_def)
  have 4: "map_of (field_entries ?at) ''command'' = Some (Some 2)" by simp
  have 5: "?kwargs ''command'' = None" by simp
  have 6: "\<forall>q\<in>set [''frame_id'']. supplied_as_declared ?at ?kwargs q"
    by (simp add: supplied_as_declared_def reserved_names_def)
  from build_command_missing_field
      [where kwargs = ?kwargs and pre = "[''frame_id'']" and post = "[''parameter'']",
       OF 1 2 3 4 5, THEN conjunct2, THEN mp, OF 6]
  show ?thesis .
qed

subsection \<open>The identifier byte of an encoded command\<close>

text \<open>
  Claim C8, as stated, fails: the packet that encodes the command \<^verbatim>\<open>at\<close> starts with the
  byte \<^verbatim>\<open>08\<close>, and the decoder, whose table of responses has the identifiers \<^verbatim>\<open>8A\<close> and
  \<^verbatim>\<open>88\<close> only, rejects it as an unrecognized response.
\<close>

theorem build_command_not_decodable:
  "build_command ''at'' [''frame_id'' \<mapsto> ''A'', ''command'' \<mapsto> ''MY''] = Inr (CHR 0x08 # ''AMY'') \<and>
   split_response (CHR 0x08 # ''AMY'') = Inl (UnknownResponseId [CHR 0x08])"
  by (simp add: build_command_def api_commands_def reserved_names_def fetch_def
        check_length_def add_data_def split_response_def api_responses_def)

text \<open>
  Claim C8, as amended. For every command of the table, every packet that encoding the
  command returns starts with the identifier the table declares for the command, and no
  other command of the table is declared with that identifier; the table of responses
  has no layout for it, so decoding the packet fails with the \<^verbatim>\<open>KeyError\<close>
  "Unrecognized response packet" for that byte.
\<close>

theorem build_command_identifier:
  assumes "map_of api_commands cmd = Some cmd_spec"
    and "build_command cmd kwargs = Inr packet"
  shows "take 1 packet = id_entry cmd_spec \<and>
         (\<forall>cmd' cmd_spec'. map_of api_commands cmd' = Some cmd_spec' \<and>
              id_entry cmd_spec' = take 1 packet \<longrightarrow> cmd' = cmd) \<and>
         map_of api_responses (take 1 packet) = None \<and>
         split_response packet = Inl (UnknownResponseId (take 1 packet))"
proof -
  from assms
  have "build_params cmd_spec kwargs (order_entry cmd_spec) (id_entry cmd_spec) = Inr packet"
    by (simp add: build_command_def)
  then obtain suffix where "packet = id_entry cmd_spec @ suffix"
    by (auto dest: build_params_extends)
  with api_commands_at(2) [OF assms(1)] have packet: "packet = CHR 0x08 # suffix" by simp
  have "cmd' = cmd" if "map_of api_commands cmd' = Some cmd_spec'" for cmd' cmd_spec'
    using api_commands_at(1) [OF that] api_commands_at(1) [OF assms(1)] by simp
  moreover have "map_of api_responses [CHR 0x08] = None"
    by (simp add: api_responses_def)
  ultimately show ?thesis
    using api_commands_at(2) [OF assms(1)]
    by (auto simp: packet split_response_def)
qed

text \<open>
  The theorem at the call of the module's test,
  \<^verbatim>\<open>build_command("at", frame_id="A", command="MY")\<close>.
\<close>

theorem build_command_identifier_witness:
  "build_command ''at'' [''frame_id'' \<mapsto> ''A'', ''command'' \<mapsto> ''MY''] = Inr (CHR 0x08 # ''AMY'') \<and>
   take 1 (CHR 0x08 # ''AMY'') = [CHR 0x08] \<and>
   split_response (CHR 0x08 # ''AMY'') = Inl (UnknownResponseId (take 1 (CHR 0x08 # ''AMY'')))"
proof -
  let ?at = "\<lparr>id_entry = [CHR 0x08],
         field_entries = [(''frame_id'', Some 1), (''command'', Some 2), (''parameter'', None)],
         order_entry = [''frame_id'', ''command'', ''parameter'']\<rparr>"
  have 1: "map_of api_commands ''at'' = Some ?at" by (simp add: api_commands_def)
  have 2: "build_command ''at'' [''frame_id'' \<mapsto> ''A'', ''command'' \<mapsto> ''MY''] =
             Inr (CHR 0x08 # ''AMY'')"
    by (simp add: build_command_def api_commands_def reserved_names_def fetch_def
          check_length_def add_data_def)
  from build_command_identifier [OF 1 2] 2 show ?thesis by simp
qed

section \<open>The response decoder\<close>

subsection \<open>What the decoder does on each of the two layouts\<close>

lemma split_status:
  "split_response (CHR 0x8A # rest) =
     (if length rest < 1 then Inl Truncated
      else if 1 < length rest then Inl Overlong
      else Inr [''id'' \<mapsto> ''status'', ''status'' \<mapsto> take 1 rest])"
  by (simp add: split_response_def api_responses_def reserved_names_def subrange_def)

lemma split_at_response:
  "split_response (CHR 0x88 # rest) =
     (if length rest < 4 then Inl Truncated
      else Inr (if drop 4 rest = []
        then [''id'' \<mapsto> ''at_response'', ''frame_id'' \<mapsto> take 1 rest,
              ''command'' \<mapsto> take 2 (drop 1 rest), ''status'' \<mapsto> take 1 (drop 3 rest)]
        else [''id'' \<mapsto> ''at_response'', ''frame_id'' \<mapsto> take 1 rest,
              ''command'' \<mapsto> take 2 (drop 1 rest), ''status'' \<mapsto> take 1 (drop 3 rest),
              ''parameter'' \<mapsto> drop 4 rest]))"
  by (auto simp add: split_response_def api_responses_def reserved_names_def subrange_def
        Let_def eval_nat_numeral)

text \<open>A payload whose first byte is in the table starts with one of the two identifiers.\<close>

lemma api_responses_cases:
  assumes "map_of api_responses (take 1 data) = Some packet_spec"
  obtains rest where "data = CHR 0x8A # rest" "id_entry packet_spec = ''status''"
      "fixed_fields packet_spec = [(''status'', 1)]" "last_fixed packet_spec"
  | rest where "data = CHR 0x88 # rest" "id_entry packet_spec = ''at_response''"
      "fixed_fields packet_spec = [(''frame_id'', 1), (''command'', 2), (''status'', 1)]"
      "\<not> last_fixed packet_spec"
  using assms
  by (cases data)
     (auto simp: api_responses_def fixed_fields_def last_fixed_def reserved_names_def
           split: if_splits)

subsection \<open>The layout of an AT response\<close>

text \<open>
  Claim C1. For every payload whose leading byte selects the layout \<^verbatim>\<open>at_response\<close>, the
  decoder fails when the four bytes of the fixed-length fields are not all there, and
  otherwise returns exactly this dictionary: \<^verbatim>\<open>frame_id\<close> is the byte at offset 1,
  \<^verbatim>\<open>command\<close> the two bytes at offsets 2 and 3, \<^verbatim>\<open>status\<close> the byte at offset 4, and
  \<^verbatim>\<open>parameter\<close> is all the bytes from offset 5 when there are any; when there are none the
  dictionary has no key \<^verbatim>\<open>parameter\<close>. In particular the bytes
  \<^verbatim>\<open>88 44 4D 59 01 41 42 43 44 45 46\<close> decode to the dictionary of the specification.
\<close>

theorem at_response_layout:
  "(\<forall>data packet_spec.
      map_of api_responses (take 1 data) = Some packet_spec \<and>
      id_entry packet_spec = ''at_response'' \<longrightarrow>
      split_response data =
        (if length data < 5 then Inl Truncated
         else if drop 5 data = [] then
           Inr [''id'' \<mapsto> ''at_response'', ''frame_id'' \<mapsto> subrange data 1 2,
                ''command'' \<mapsto> subrange data 2 4, ''status'' \<mapsto> subrange data 4 5]
         else
           Inr [''id'' \<mapsto> ''at_response'', ''frame_id'' \<mapsto> subrange data 1 2,
                ''command'' \<mapsto> subrange data 2 4, ''status'' \<mapsto> subrange data 4 5,
                ''parameter'' \<mapsto> drop 5 data]) \<and>
      (\<forall>info. split_response data = Inr info \<longrightarrow>
         length (subrange data 1 2) = 1 \<and> length (subrange data 2 4) = 2 \<and>
         length (subrange data 4 5) = 1 \<and>
         (info ''parameter'' = None) = (drop 5 data = []))) \<and>
   split_response (CHR 0x88 # ''DMY'' @ [CHR 0x01] @ ''ABCDEF'') =
     Inr [''id'' \<mapsto> ''at_response'', ''frame_id'' \<mapsto> ''D'', ''command'' \<mapsto> ''MY'',
          ''status'' \<mapsto> [CHR 0x01], ''parameter'' \<mapsto> ''ABCDEF'']"
proof (intro conjI allI impI)
  fix data packet_spec
  assume "map_of api_responses (take 1 data) = Some packet_spec \<and>
          id_entry packet_spec = ''at_response''"
  then have ps: "map_of api_responses (take 1 data) = Some packet_spec"
    and name: "id_entry packet_spec = ''at_response''"
    by simp_all
  from ps have "\<exists>rest. data = CHR 0x88 # rest"
  proof (cases rule: api_responses_cases)
    case (1 rest)
    with name show ?thesis by simp
  next
    case (2 rest)
    then show ?thesis by blast
  qed
  then obtain rest where data: "data = CHR 0x88 # rest" ..
  show "split_response data =
        (if length data < 5 then Inl Truncated
         else if drop 5 data = [] then
           Inr [''id'' \<mapsto> ''at_response'', ''frame_id'' \<mapsto> subrange data 1 2,
                ''command'' \<mapsto> subrange data 2 4, ''status'' \<mapsto> subrange data 4 5]
         else
           Inr [''id'' \<mapsto> ''at_response'', ''frame_id'' \<mapsto> subrange data 1 2,
                ''command'' \<mapsto> subrange data 2 4, ''status'' \<mapsto> subrange data 4 5,
                ''parameter'' \<mapsto> drop 5 data])"
    unfolding data split_at_response by (simp add: subrange_def eval_nat_numeral)
  fix info
  assume "split_response data = Inr info"
  then show "length (subrange data 1 2) = 1" "length (subrange data 2 4) = 2"
    "length (subrange data 4 5) = 1" "(info ''parameter'' = None) = (drop 5 data = [])"
    unfolding data split_at_response
    by (auto simp: subrange_def split: if_splits)
next
  show "split_response (CHR 0x88 # ''DMY'' @ [CHR 0x01] @ ''ABCDEF'') =
     Inr [''id'' \<mapsto> ''at_response'', ''frame_id'' \<mapsto> ''D'', ''command'' \<mapsto> ''MY'',
          ''status'' \<mapsto> [CHR 0x01], ''parameter'' \<mapsto> ''ABCDEF'']"
    by (simp add: split_at_response)
qed

text \<open>
  The theorem at the AT response without parameter bytes, \<^verbatim>\<open>88 44 4D 59 01\<close>: the result
  has no key \<^verbatim>\<open>parameter\<close>.
\<close>

theorem at_response_layout_witness:
  "map_of api_responses (take 1 (CHR 0x88 # ''DMY'' @ [CHR 0x01])) =
     Some \<lparr>id_entry = ''at_response'',
           field_entries = [(''frame_id'', Some 1), (''command'', Some 2), (''status'', Some 1),
                            (''parameter'', None)],
           order_entry = [''frame_id'', ''command'', ''status'', ''parameter'']\<rparr> \<and>
   split_response (CHR 0x88 # ''DMY'' @ [CHR 0x01]) =
     Inr [''id'' \<mapsto> ''at_response'', ''frame_id'' \<mapsto> ''D'', ''command'' \<mapsto> ''MY'',
          ''status'' \<mapsto> [CHR 0x01]]"
  using at_response_layout [THEN conjunct1, rule_format,
      of "CHR 0x88 # ''DMY'' @ [CHR 0x01]"
         "\<lparr>id_entry = ''at_response'',
           field_entries = [(''frame_id'', Some 1), (''command'', Some 2), (''status'', Some 1),
                            (''parameter'', None)],
           order_entry = [''frame_id'', ''command'', ''status'', ''parameter'']\<rparr>"]
  by (simp add: api_responses_def subrange_def)

subsection \<open>Payloads that are too short or too long\<close>

text \<open>
  Claim C6. For every payload whose leading byte selects a layout of the table: a payload
  shorter than 1 plus the total length of the layout's fixed-length fields fails with
  the \<^verbatim>\<open>ValueError\<close> "shorter than expected"; and when the last field of the layout is
  of fixed length, a payload longer than 1 plus that total fails with the
  \<^verbatim>\<open>ValueError\<close> "longer than expected".
\<close>

theorem split_response_length_errors:
  assumes "map_of api_responses (take 1 data) = Some packet_spec"
  shows "(length data < 1 + fixed_total packet_spec \<longrightarrow> split_response data = Inl Truncated) \<and>
         (last_fixed packet_spec \<and> 1 + fixed_total packet_spec < length data
            \<longrightarrow> split_response data = Inl Overlong)"
  using assms
proof (cases rule: api_responses_cases)
  case (1 rest)
  then show ?thesis
    by (simp add: split_status fixed_total_def)
next
  case (2 rest)
  then show ?thesis
    by (simp add: split_at_response fixed_total_def)
qed

text \<open>
  The theorem at the payloads of the module's tests: \<^verbatim>\<open>8A\<close> alone is too short,
  \<^verbatim>\<open>8A 00 00 00\<close> is too long for the layout \<^verbatim>\<open>status\<close>, whose last field is of fixed
  length.
\<close>

theorem split_response_length_errors_witness:
  "split_response [CHR 0x8A] = Inl Truncated \<and>
   split_response [CHR 0x8A, CHR 0x00, CHR 0x00, CHR 0x00] = Inl Overlong"
proof -
  let ?status = "\<lparr>id_entry = ''status'', field_entries = [(''status'', Some 1)],
                  order_entry = [''status'']\<rparr>"
  have short: "map_of api_responses (take 1 [CHR 0x8A]) = Some ?status"
    and long: "map_of api_responses (take 1 [CHR 0x8A, CHR 0x00, CHR 0x00, CHR 0x00]) =
                 Some ?status"
    by (simp_all add: api_responses_def)
  have total: "fixed_total ?status = 1" and last: "last_fixed ?status"
    by (simp_all add: fixed_total_def fixed_fields_def last_fixed_def reserved_names_def)
  have too_short: "length [CHR 0x8A] < 1 + fixed_total ?status"
    unfolding total by simp
  have too_long: "last_fixed ?status \<and>
                  1 + fixed_total ?status < length [CHR 0x8A, CHR 0x00, CHR 0x00, CHR 0x00]"
    unfolding total using last by simp
  from split_response_length_errors [OF short, THEN conjunct1, rule_format, OF too_short]
    split_response_length_errors [OF long, THEN conjunct2, rule_format, OF too_long]
  show ?thesis by (rule conjI)
qed

subsection \<open>What a successful decode returns\<close>

text \<open>
  Claim C10. Whenever the decoder returns a dictionary, the first byte of the payload
  selects a layout of the table, the dictionary maps \<^verbatim>\<open>'id'\<close> to the name of that layout,
  and for each fixed-length field of the layout it holds a value of exactly the declared
  number of bytes.
\<close>

theorem split_response_result:
  assumes "split_response data = Inr info"
  shows "\<exists>packet_spec. map_of api_responses (take 1 data) = Some packet_spec \<and>
           info ''id'' = Some (id_entry packet_spec) \<and>
           (\<forall>(param, n) \<in> set (fixed_fields packet_spec).
              \<exists>field. info param = Some field \<and> length field = n)"
proof -
  from assms obtain packet_spec where ps: "map_of api_responses (take 1 data) = Some packet_spec"
    by (cases data) (auto simp: split_response_def split: option.splits)
  from ps show ?thesis
  proof (cases rule: api_responses_cases)
    case (1 rest)
    with assms ps show ?thesis
      by (cases rest) (auto simp: split_status split: if_splits)
  next
    case (2 rest)
    with assms ps show ?thesis
      by (auto simp: split_at_response min_def split: if_splits)
  qed
qed

text \<open>The theorem at the status response \<^verbatim>\<open>8A 01\<close> of the module's tests.\<close>

theorem split_response_result_witness:
  "split_response [CHR 0x8A, CHR 0x01] = Inr [''id'' \<mapsto> ''status'', ''status'' \<mapsto> [CHR 0x01]] \<and>
   (\<exists>packet_spec. map_of api_responses (take 1 [CHR 0x8A, CHR 0x01]) = Some packet_spec \<and>
      [''id'' \<mapsto> ''status'', ''status'' \<mapsto> [CHR 0x01]] ''id'' = Some (id_entry packet_spec) \<and>
      (\<forall>(param, n) \<in> set (fixed_fields packet_spec).
         \<exists>field. [''id'' \<mapsto> ''status'', ''status'' \<mapsto> [CHR 0x01]] param = Some field \<and>
                 length field = n))"
proof -
  have dec: "split_response [CHR 0x8A, CHR 0x01] =
               Inr [''id'' \<mapsto> ''status'', ''status'' \<mapsto> [CHR 0x01]]"
    by (simp add: split_status)
  from dec split_response_result [OF dec] show ?thesis
    by (intro conjI)
qed

subsection \<open>The empty payload\<close>

text \<open>
  Claim C7, as stated, fails: the failure of the empty payload is not the \<^verbatim>\<open>ValueError\<close>
  of a packet that is shorter than expected.
\<close>

theorem split_response_empty_not_Truncated:
  "split_response [] \<noteq> Inl Truncated"
  by (simp add: split_response_def)

text \<open>
  Claim C7, as amended. Decoding an empty payload fails, but not with the
  \<^verbatim>\<open>ValueError\<close> of a packet that is shorter than expected: reading the identifier byte
  \<^verbatim>\<open>data[0]\<close> of the empty string raises \<^verbatim>\<open>IndexError\<close>, which the surrounding
  \<^verbatim>\<open>except KeyError\<close> does not catch.
\<close>

theorem split_response_empty:
  "split_response [] = Inl IndexError"
  by (simp add: split_response_def)

section \<open>The sample decoder\<close>

subsection \<open>The header\<close>

text \<open>
  The two loops over the flags compute the lists of enabled lines: starting from
  \<open>i = 2 ^ k\<close>, the line \<open>lo + m\<close> is tested against bit \<open>k + m\<close>.
\<close>

lemma check_flags_upt:
  "check_flags b [lo..<hi] (2 ^ k) enabled = enabled @ filter (\<lambda>n. bit b (n + k - lo)) [lo..<hi]"
proof (induction "hi - lo" arbitrary: lo k enabled)
  case 0
  then show ?case by simp
next
  case (Suc d)
  then have lo: "lo < hi" and d: "d = hi - Suc lo" by simp_all
  have f: "filter (\<lambda>n. bit b (n + Suc k - Suc lo)) [Suc lo..<hi] =
           filter (\<lambda>n. bit b (n + k - lo)) [Suc lo..<hi]"
    by (rule filter_cong) simp_all
  have "2 ^ k * 2 = (2::nat) ^ Suc k" by simp
  with Suc.hyps(1) [OF d, of "Suc k"] lo f show ?case
    by (simp add: upt_conv_Cons and_exp_eq_0_iff_not_bit del: power_Suc)
qed

lemma parse_header_ok:
  assumes "3 \<le> length data"
  shows "parse_header data = Inr (ord (data ! 0), digital_lines data, analog_lines data)"
proof -
  have s: "subrange data 1 3 = [data ! 1, data ! 2]"
    using assms by (cases data; cases "tl data"; cases "tl (tl data)") (auto simp: subrange_def)
  have g: "getitem data 0 = Inr (data ! 0)" "getitem [data ! 1, data ! 2] 1 = Inr (data ! 2)"
    "getitem [data ! 1, data ! 2] 0 = Inr (data ! 1)"
    using assms by (auto simp add: getitem_def)
  have d: "check_flags b [0..<8] 1 [] = filter (\<lambda>n. bit b n) [0..<8]" for b
    using check_flags_upt [of b 0 8 0 "[]"] by simp
  have a: "check_flags b [0..<6] 2 [] = filter (\<lambda>n. bit b (Suc n)) [0..<6]" for b
    using check_flags_upt [of b 0 6 1 "[]"] by simp
  have one: "(b AND 1 \<noteq> 0) = bit b 0" for b :: nat
    using and_exp_eq_0_iff_not_bit [of b 0] by simp
  show ?thesis
    unfolding parse_header_def Let_def s g d a one digital_lines_def analog_lines_def
    by simp
qed

lemma parse_header_short:
  assumes "length data < 3"
  shows "parse_header data = Inl IndexError"
proof (cases "data = []")
  case True
  then show ?thesis by (simp add: parse_header_def getitem_def)
next
  case False
  have "length (subrange data 1 3) < 2"
    using assms by (simp add: subrange_def)
  with False show ?thesis
    by (simp add: parse_header_def getitem_def Let_def)
qed

lemma digital_lines_shape:
  "digital_lines data = [] \<or> (\<exists>d rest. digital_lines data = d # rest \<and> d < 8) \<or>
   digital_lines data = [8]"
proof (cases "filter (\<lambda>n. bit (ord (data ! 2)) n) [0..<8]")
  case Nil
  then show ?thesis by (simp add: digital_lines_def)
next
  case (Cons d rest)
  then have "d \<in> set (filter (\<lambda>n. bit (ord (data ! 2)) n) [0..<8])" by simp
  then have "d < 8" by simp
  with Cons show ?thesis by (simp add: digital_lines_def)
qed

lemma digital_lines_small: "\<forall>n\<in>set (digital_lines data). n < 10"
  by (auto simp: digital_lines_def)

lemma analog_lines_small: "\<forall>n\<in>set (analog_lines data). n < 10"
  by (auto simp: analog_lines_def)

lemma digital_lines_distinct: "distinct (digital_lines data)"
  by (auto simp: digital_lines_def)

lemma analog_lines_distinct: "distinct (analog_lines data)"
  by (simp add: analog_lines_def)

subsection \<open>The keys\<close>

text \<open>
  The lines are numbered below 10, so a key ends in one digit; different lines have
  different keys, and no key of a digital line is the key of an analog line.
\<close>

lemma upt_10: "[0..<10] = [0, 1, 2, 3, 4, 5, 6, 7, 8, 9]"
  by code_simp

lemma digit_code:
  assumes "n < 10"
  shows "(of_char (''0123456789'' ! n) :: nat) = 48 + n"
proof -
  from assms have "n \<in> set [0..<10]" by simp
  then show ?thesis unfolding upt_10 by auto
qed

lemma format_d_inj:
  assumes "m < 10" "n < 10" "format_d m = format_d n"
  shows "m = n"
proof -
  from assms have "(of_char (''0123456789'' ! m) :: nat) = of_char (''0123456789'' ! n)"
    by (simp add: format_d.simps)
  with assms show ?thesis by (simp add: digit_code)
qed

lemma adc_dio_keys: "adc_key m \<noteq> dio_key n" "dio_key n \<noteq> adc_key m"
  by simp_all

lemma key_inj:
  assumes "\<forall>n\<in>set xs. n < 10"
  shows "inj_on dio_key (set xs)" "inj_on adc_key (set xs)"
  using assms by (auto simp: inj_on_def dest: format_d_inj)

lemma card_keys:
  "card (dio_key ` set (digital_lines data) \<union> adc_key ` set (analog_lines data)) =
     length (digital_lines data) + length (analog_lines data)"
proof -
  have "dio_key ` set (digital_lines data) \<inter> adc_key ` set (analog_lines data) = {}"
    by auto
  then have "card (dio_key ` set (digital_lines data) \<union> adc_key ` set (analog_lines data)) =
     card (dio_key ` set (digital_lines data)) + card (adc_key ` set (analog_lines data))"
    by (simp add: card_Un_disjoint)
  also have "card (dio_key ` set (digital_lines data)) = length (digital_lines data)"
    using key_inj(1) [OF digital_lines_small] digital_lines_distinct
    by (simp add: card_image distinct_card)
  also have "card (adc_key ` set (analog_lines data)) = length (analog_lines data)"
    using key_inj(2) [OF analog_lines_small] analog_lines_distinct
    by (simp add: card_image distinct_card)
  finally show ?thesis .
qed

subsection \<open>Dictionaries built by a loop of assignments\<close>

lemma foldl_upd_other:
  "k \<notin> f ` set xs \<Longrightarrow> foldl (\<lambda>s x. s(f x \<mapsto> g x)) s xs k = s k"
  by (induction xs arbitrary: s) auto

lemma foldl_upd_at:
  "inj_on f (set xs) \<Longrightarrow> x \<in> set xs \<Longrightarrow> foldl (\<lambda>s x. s(f x \<mapsto> g x)) s xs (f x) = Some (g x)"
proof (induction xs arbitrary: s)
  case Nil
  then show ?case by simp
next
  case (Cons y ys)
  show ?case
  proof (cases "x \<in> set ys")
    case True
    with Cons show ?thesis by simp
  next
    case False
    with Cons.prems have "x = y" "f x \<notin> f ` set ys"
      by (auto simp: inj_on_def)
    then have "foldl (\<lambda>s x. s(f x \<mapsto> g x)) (s(f y \<mapsto> g y)) ys (f x) = (s(f y \<mapsto> g y)) (f x)"
      by (intro foldl_upd_other)
    also have "\<dots> = Some (g x)"
      using \<open>x = y\<close> by simp
    finally show ?thesis by (simp only: foldl.simps)
  qed
qed

lemma dom_foldl_upd:
  "dom (foldl (\<lambda>s x. s(f x \<mapsto> g x)) s xs) = dom s \<union> f ` set xs"
  by (induction xs arbitrary: s) auto

subsection \<open>The digital lines of a record\<close>

lemma and_pow_bit: "((a::nat) AND 2 ^ n \<noteq> 0) = bit a n"
  by (simp add: and_exp_eq_0_iff_not_bit)

lemma subrange_two:
  "byte_pos + 2 \<le> length data \<Longrightarrow>
   subrange data byte_pos (byte_pos + 2) = [data ! byte_pos, data ! Suc byte_pos]"
  by (simp add: subrange_def list_eq_iff_nth_eq less_Suc_eq numeral_2_eq_2)

lemma read_dio_step:
  assumes "byte_pos + 2 \<le> length data"
  shows "read_dio (subrange data byte_pos (byte_pos + 2)) (dio # dios) sample =
           read_dio (subrange data byte_pos (byte_pos + 2)) dios
             (sample(dio_key dio \<mapsto> PyBool (digital_reading data byte_pos dio)))"
proof (cases "dio > 7")
  case True
  then have "getitem [data ! byte_pos, data ! Suc byte_pos] 0 = Inr (data ! byte_pos)" "\<not> dio < 8"
    by (simp_all add: getitem_def)
  with True show ?thesis
    unfolding subrange_two [OF assms] read_dio.simps digital_reading_def and_pow_bit by simp
next
  case False
  then have "getitem [data ! byte_pos, data ! Suc byte_pos] 1 = Inr (data ! Suc byte_pos)" "dio < 8"
    by (simp_all add: getitem_def)
  with False show ?thesis
    unfolding subrange_two [OF assms] read_dio.simps digital_reading_def and_pow_bit by simp
qed

lemma read_dio_full:
  assumes "byte_pos + 2 \<le> length data"
  shows "read_dio (subrange data byte_pos (byte_pos + 2)) dios sample =
           Inr (foldl (\<lambda>s dio. s(dio_key dio \<mapsto> PyBool (digital_reading data byte_pos dio)))
                  sample dios)"
proof (induction dios arbitrary: sample)
  case Nil
  then show ?case by simp
next
  case (Cons dio dios)
  then show ?case
    by (simp only: read_dio_step [OF assms] foldl.simps)
qed

lemma read_dio_head_fails:
  assumes "if dio > 7 then values = [] else length values < 2"
  shows "read_dio values (dio # dios) sample = Inl IndexError"
  using assms by (simp add: getitem_def split: if_splits)

subsection \<open>The analog lines of a record\<close>

text \<open>
  The 16-bit word that \<^const>\<open>unpack_h\<close> builds from two bytes, read as a signed number,
  is the two's complement value \<^const>\<open>signed16\<close>.
\<close>

lemma sint16_of_nat:
  assumes "u < 65536"
  shows "sint (word_of_nat u :: 16 word) = (if u < 32768 then int u else int u - 65536)"
proof -
  have "sint (word_of_nat u :: 16 word) = signed_take_bit 15 (int u)"
    by (simp add: signed_of_nat)
  also have "\<dots> = take_bit 16 (int u) - 2 ^ 16 * of_bool (bit (int u) 15)"
    by (simp add: signed_take_bit_eq_take_bit_minus)
  also have "take_bit 16 (int u) = int u"
    using assms by (simp add: take_bit_int_eq_self)
  also have "bit (int u) 15 = (\<not> u < 32768)"
  proof (cases "u < 32768")
    case True
    then have "int u div 2 ^ 15 = 0" by simp
    then show ?thesis using True by (simp only: bit_iff_odd) simp
  next
    case False
    with assms have "int u div 2 ^ 15 = 1" by simp
    then show ?thesis using False by (simp only: bit_iff_odd) simp
  qed
  finally show ?thesis by simp
qed

lemma unpack_h_two: "unpack_h [msb, lsb] = Inr (signed16 (ord msb) (ord lsb))"
proof -
  have "ord msb < 256" "ord lsb < 256" by (simp_all add: ord_def)
  then have "ord msb * 256 + ord lsb < 65536" by simp
  then have "sint (word_of_nat (ord msb * 256 + ord lsb) :: 16 word) = signed16 (ord msb) (ord lsb)"
    by (simp only: sint16_of_nat signed16_def mult.commute)
  moreover have "unpack_h [msb, lsb] = Inr (sint (word_of_nat (ord msb * 256 + ord lsb) :: 16 word))"
    unfolding unpack_h_def by (simp only: list.case)
  ultimately show ?thesis by (simp only:)
qed

lemma unpack_h_other: "length value_raw \<noteq> 2 \<Longrightarrow> unpack_h value_raw = Inl StructError"
  by (cases value_raw; cases "tl value_raw"; cases "tl (tl value_raw)") (auto simp: unpack_h_def)

lemma read_adc_step:
  assumes "byte_pos + 2 \<le> length data"
  shows "read_adc data (adc # adcs) byte_pos sample =
           read_adc data adcs (byte_pos + 2)
             (sample(adc_key adc \<mapsto> PyInt (analog_reading data byte_pos)))"
  unfolding read_adc.simps subrange_two [OF assms] unpack_h_two analog_reading_def by simp

lemma read_adc_full:
  assumes "byte_pos + 2 * length adcs \<le> length data"
  shows "\<exists>sample'. read_adc data adcs byte_pos sample = Inr (sample', byte_pos + 2 * length adcs) \<and>
           dom sample' = dom sample \<union> adc_key ` set adcs \<and>
           (\<forall>k. k \<notin> adc_key ` set adcs \<longrightarrow> sample' k = sample k) \<and>
           (inj_on adc_key (set adcs) \<and> distinct adcs \<longrightarrow>
              (\<forall>j<length adcs. sample' (adc_key (adcs ! j)) =
                                 Some (PyInt (analog_reading data (byte_pos + 2 * j)))))"
  using assms
proof (induction adcs arbitrary: byte_pos sample)
  case Nil
  then show ?case by simp
next
  case (Cons adc adcs)
  let ?s1 = "sample(adc_key adc \<mapsto> PyInt (analog_reading data byte_pos))"
  from Cons.prems have pos: "byte_pos + 2 \<le> length data"
    and rest: "(byte_pos + 2) + 2 * length adcs \<le> length data" by simp_all
  from Cons.IH [OF rest, of ?s1] obtain sample' where
    res: "read_adc data adcs (byte_pos + 2) ?s1 = Inr (sample', byte_pos + 2 + 2 * length adcs)"
    and dom: "dom sample' = dom ?s1 \<union> adc_key ` set adcs"
    and other: "\<And>k. k \<notin> adc_key ` set adcs \<Longrightarrow> sample' k = ?s1 k"
    and at: "inj_on adc_key (set adcs) \<Longrightarrow> distinct adcs \<Longrightarrow> j < length adcs \<Longrightarrow>
             sample' (adc_key (adcs ! j)) = Some (PyInt (analog_reading data (byte_pos + 2 + 2 * j)))" for j
    by blast
  have "read_adc data (adc # adcs) byte_pos sample =
          Inr (sample', byte_pos + 2 * length (adc # adcs))"
    unfolding read_adc_step [OF pos] using res by simp
  moreover have "dom sample' = dom sample \<union> adc_key ` set (adc # adcs)"
    using dom by auto
  moreover have "sample' k = sample k" if "k \<notin> adc_key ` set (adc # adcs)" for k
    using that other [of k] by auto
  moreover have "sample' (adc_key ((adc # adcs) ! j)) =
                   Some (PyInt (analog_reading data (byte_pos + 2 * j)))"
    if inj: "inj_on adc_key (set (adc # adcs))" and dist: "distinct (adc # adcs)"
      and j: "j < length (adc # adcs)" for j
  proof (cases j)
    case 0
    from inj dist have "adc_key adc \<notin> adc_key ` set adcs"
      by (auto simp: inj_on_def)
    from other [OF this] 0 show ?thesis by simp
  next
    case (Suc j')
    with inj dist j at [of j'] show ?thesis by simp
  qed
  ultimately show ?case by blast
qed

lemma read_adc_short:
  assumes "adcs \<noteq> []" "length data < byte_pos + 2 * length adcs"
  shows "read_adc data adcs byte_pos sample = Inl StructError"
  using assms
proof (induction adcs arbitrary: byte_pos sample)
  case Nil
  then show ?case by simp
next
  case (Cons adc adcs)
  show ?case
  proof (cases "byte_pos + 2 \<le> length data")
    case True
    with Cons.prems have "adcs \<noteq> []" "length data < (byte_pos + 2) + 2 * length adcs"
      by auto
    from Cons.IH [OF this] show ?thesis
      unfolding read_adc_step [OF True] .
  next
    case False
    then have "length (subrange data byte_pos (byte_pos + 2)) \<noteq> 2"
      by (simp add: subrange_def)
    then show ?thesis
      by (simp add: unpack_h_other)
  qed
qed

subsection \<open>One record\<close>

lemma read_sample_eq:
  assumes "dios \<noteq> [] \<longrightarrow> byte_pos + 2 \<le> length data"
  shows "read_sample data dios adcs byte_pos =
           read_adc data adcs (byte_pos + (if dios = [] then 0 else 2))
             (foldl (\<lambda>s dio. s(dio_key dio \<mapsto> PyBool (digital_reading data byte_pos dio)))
                Map.empty dios)"
proof (cases "dios = []")
  case True
  then show ?thesis by (cases adcs) (simp_all add: read_sample_def)
next
  case False
  with assms have "byte_pos + 2 \<le> length data" by simp
  from read_dio_full [OF this] False show ?thesis
    by (cases adcs) (simp_all add: read_sample_def)
qed

lemma read_sample_full:
  assumes len: "byte_pos + (if dios = [] then 0 else 2) + 2 * length adcs \<le> length data"
    and small: "\<forall>n\<in>set dios. n < 10" "\<forall>n\<in>set adcs. n < 10" and dist: "distinct adcs"
  shows "\<exists>s. read_sample data dios adcs byte_pos =
               Inr (s, byte_pos + (if dios = [] then 0 else 2) + 2 * length adcs) \<and>
           dom s = dio_key ` set dios \<union> adc_key ` set adcs \<and>
           (\<forall>n\<in>set dios. s (dio_key n) = Some (PyBool (digital_reading data byte_pos n))) \<and>
           (\<forall>j<length adcs. s (adc_key (adcs ! j)) =
              Some (PyInt (analog_reading data (byte_pos + (if dios = [] then 0 else 2) + 2 * j))))"
proof -
  let ?p = "byte_pos + (if dios = [] then 0 else 2)"
  let ?s0 = "foldl (\<lambda>s dio. s(dio_key dio \<mapsto> PyBool (digital_reading data byte_pos dio)))
                Map.empty dios"
  from len have "dios \<noteq> [] \<longrightarrow> byte_pos + 2 \<le> length data"
    by (auto split: if_splits)
  then have eq: "read_sample data dios adcs byte_pos = read_adc data adcs ?p ?s0"
    by (rule read_sample_eq)
  from len have "?p + 2 * length adcs \<le> length data" by simp
  from read_adc_full [OF this, of ?s0] obtain s where
    res: "read_adc data adcs ?p ?s0 = Inr (s, ?p + 2 * length adcs)"
    and dom: "dom s = dom ?s0 \<union> adc_key ` set adcs"
    and other: "\<And>k. k \<notin> adc_key ` set adcs \<Longrightarrow> s k = ?s0 k"
    and at: "inj_on adc_key (set adcs) \<and> distinct adcs \<longrightarrow>
              (\<forall>j<length adcs. s (adc_key (adcs ! j)) = Some (PyInt (analog_reading data (?p + 2 * j))))"
    by blast
  have "read_sample data dios adcs byte_pos = Inr (s, ?p + 2 * length adcs)"
    using eq res by simp
  moreover have "dom s = dio_key ` set dios \<union> adc_key ` set adcs"
    using dom by (simp add: dom_foldl_upd)
  moreover have "s (dio_key n) = Some (PyBool (digital_reading data byte_pos n))"
    if "n \<in> set dios" for n
  proof -
    have "dio_key n \<notin> adc_key ` set adcs" by auto
    from other [OF this] have "s (dio_key n) = ?s0 (dio_key n)" .
    also have "\<dots> = Some (PyBool (digital_reading data byte_pos n))"
      using key_inj(1) [OF small(1)] that by (rule foldl_upd_at)
    finally show ?thesis .
  qed
  moreover have "\<forall>j<length adcs. s (adc_key (adcs ! j)) = Some (PyInt (analog_reading data (?p + 2 * j)))"
    using at key_inj(2) [OF small(2)] dist by blast
  ultimately show ?thesis by blast
qed

lemma read_sample_short:
  assumes len: "length data < byte_pos + (if dios = [] then 0 else 2) + 2 * length adcs"
    and pos: "byte_pos \<le> length data"
    and shape: "dios = [] \<or> (\<exists>d rest. dios = d # rest \<and> d < 8) \<or> dios = [8]"
  shows "read_sample data dios adcs byte_pos = Inl IndexError \<or>
         read_sample data dios adcs byte_pos = Inl StructError \<or>
         (dios = [8] \<and> adcs = [] \<and> length data = Suc byte_pos \<and>
          (\<exists>s. read_sample data dios adcs byte_pos = Inr (s, byte_pos + 2)))"
proof (cases "dios \<noteq> [] \<and> length data < byte_pos + 2")
  case False
  then have ok: "dios \<noteq> [] \<longrightarrow> byte_pos + 2 \<le> length data" by auto
  let ?p = "byte_pos + (if dios = [] then 0 else 2)"
  from len pos ok have "adcs \<noteq> []" by (auto split: if_splits)
  moreover from len have "length data < ?p + 2 * length adcs" by simp
  ultimately have "read_adc data adcs ?p s = Inl StructError" for s
    by (rule read_adc_short)
  then show ?thesis
    unfolding read_sample_eq [OF ok] by simp
next
  case True
  then have ne: "dios \<noteq> []" and short: "length data < byte_pos + 2" by simp_all
  let ?vals = "subrange data byte_pos (byte_pos + 2)"
  from short pos have lv: "length ?vals = length data - byte_pos" "length ?vals < 2"
    by (simp_all add: subrange_def)
  from shape ne consider d rest where "dios = d # rest" "d < 8" | "dios = [8]" by blast
  then show ?thesis
  proof cases
    case 1
    from lv 1 have "if d > 7 then ?vals = [] else length ?vals < 2" by simp
    then have "read_dio ?vals (d # rest) Map.empty = Inl IndexError"
      by (rule read_dio_head_fails)
    with 1 show ?thesis by (simp add: read_sample_def)
  next
    case 2
    show ?thesis
    proof (cases "length data = byte_pos")
      case True
      with lv have "if (8::nat) > 7 then ?vals = [] else length ?vals < 2" by simp
      then have "read_dio ?vals [8] Map.empty = Inl IndexError"
        by (rule read_dio_head_fails)
      with 2 show ?thesis by (simp add: read_sample_def)
    next
      case False
      with pos short have l: "length data = Suc byte_pos" by simp
      with lv obtain v where v: "?vals = [v]"
        by (cases ?vals) auto
      have dio: "read_dio ?vals dios Map.empty =
                   Inr [dio_key 8 \<mapsto> PyBool (ord v AND 2 ^ (8 - 8) \<noteq> 0)]"
        unfolding v 2 by (simp add: getitem_def)
      show ?thesis
      proof (cases "adcs = []")
        case True
        with dio 2 l show ?thesis by (simp add: read_sample_def)
      next
        case False
        moreover from l have "length data < (byte_pos + 2) + 2 * length adcs" by simp
        ultimately have "read_adc data adcs (byte_pos + 2) s = Inl StructError" for s
          by (rule read_adc_short)
        with dio 2 False show ?thesis by (simp add: read_sample_def)
      qed
    qed
  qed
qed

subsection \<open>The loop over the records\<close>

lemma read_samples_past:
  assumes "dios \<noteq> []" "length data \<le> byte_pos"
  shows "read_samples (Suc n) data dios adcs byte_pos samples = Inl IndexError"
proof -
  let ?vals = "subrange data byte_pos (byte_pos + 2)"
  from assms(1) obtain d rest where dios: "dios = d # rest" by (cases dios) auto
  from assms(2) have "if d > 7 then ?vals = [] else length ?vals < 2"
    by (simp add: subrange_def)
  then have "read_dio ?vals (d # rest) Map.empty = Inl IndexError"
    by (rule read_dio_head_fails)
  with dios show ?thesis by (simp add: read_sample_def)
qed

lemma read_samples_full:
  assumes r: "r = (if dios = [] then 0 else 2) + 2 * length adcs"
    and len: "byte_pos + n * r \<le> length data"
    and small: "\<forall>n\<in>set dios. n < 10" "\<forall>n\<in>set adcs. n < 10" and dist: "distinct adcs"
  shows "\<exists>ss. read_samples n data dios adcs byte_pos samples = Inr (samples @ ss) \<and>
           length ss = n \<and>
           (\<forall>i<n. read_sample data dios adcs (byte_pos + i * r) =
                     Inr (ss ! i, byte_pos + Suc i * r))"
  using len
proof (induction n arbitrary: byte_pos samples)
  case 0
  then show ?case by simp
next
  case (Suc n)
  from Suc.prems have here: "byte_pos + (if dios = [] then 0 else 2) + 2 * length adcs \<le> length data"
    and rest: "(byte_pos + r) + n * r \<le> length data"
    by (simp_all add: r)
  from read_sample_full [OF here small dist] obtain s where
    s: "read_sample data dios adcs byte_pos = Inr (s, byte_pos + r)"
    by (auto simp: r add.assoc)
  from Suc.IH [OF rest, of "samples @ [s]"] obtain ss where
    ss: "read_samples n data dios adcs (byte_pos + r) (samples @ [s]) = Inr ((samples @ [s]) @ ss)"
    and l: "length ss = n"
    and each: "\<And>i. i < n \<Longrightarrow> read_sample data dios adcs (byte_pos + r + i * r) =
                       Inr (ss ! i, byte_pos + r + Suc i * r)"
    by blast
  have "read_samples (Suc n) data dios adcs byte_pos samples = Inr (samples @ s # ss)"
    using s ss by simp
  moreover have "length (s # ss) = Suc n" using l by simp
  moreover have "read_sample data dios adcs (byte_pos + i * r) =
                   Inr ((s # ss) ! i, byte_pos + Suc i * r)" if "i < Suc n" for i
  proof (cases i)
    case 0
    with s show ?thesis by simp
  next
    case (Suc i')
    with that each [of i'] show ?thesis by (simp add: add.assoc)
  qed
  ultimately show ?case by blast
qed

lemma read_samples_short:
  assumes r: "r = (if dios = [] then 0 else 2) + 2 * length adcs"
    and len: "length data < byte_pos + n * r"
    and pos: "byte_pos \<le> length data"
    and shape: "dios = [] \<or> (\<exists>d rest. dios = d # rest \<and> d < 8) \<or> dios = [8]"
    and small: "\<forall>n\<in>set dios. n < 10" "\<forall>n\<in>set adcs. n < 10" and dist: "distinct adcs"
  shows "read_samples n data dios adcs byte_pos samples = Inl IndexError \<or>
         read_samples n data dios adcs byte_pos samples = Inl StructError \<or>
         (dios = [8] \<and> adcs = [] \<and> Suc (length data) = byte_pos + 2 * n \<and>
          (\<exists>ss. read_samples n data dios adcs byte_pos samples = Inr (samples @ ss) \<and>
                length ss = n))"
  using len pos
proof (induction n arbitrary: byte_pos samples)
  case 0
  then show ?case by simp
next
  case (Suc n)
  show ?case
  proof (cases "byte_pos + r \<le> length data")
    case True
    then have here: "byte_pos + (if dios = [] then 0 else 2) + 2 * length adcs \<le> length data"
      by (simp add: r)
    from read_sample_full [OF here small dist] obtain s where
      s: "read_sample data dios adcs byte_pos = Inr (s, byte_pos + r)"
      by (auto simp: r add.assoc)
    from Suc.prems True have "length data < (byte_pos + r) + n * r" by simp
    from Suc.IH [OF this True, of "samples @ [s]"] s show ?thesis
      by (auto simp: r)
  next
    case False
    then have "length data < byte_pos + (if dios = [] then 0 else 2) + 2 * length adcs"
      by (simp add: r)
    from read_sample_short [OF this Suc.prems(2) shape]
    consider "read_sample data dios adcs byte_pos = Inl IndexError"
      | "read_sample data dios adcs byte_pos = Inl StructError"
      | s where "dios = [8]" "adcs = []" "length data = Suc byte_pos"
          "read_sample data dios adcs byte_pos = Inr (s, byte_pos + 2)"
      by blast
    then show ?thesis
    proof cases
      case 1
      then show ?thesis by simp
    next
      case 2
      then show ?thesis by simp
    next
      case 3
      show ?thesis
      proof (cases n)
        case 0
        with 3 show ?thesis by simp
      next
        case (Suc m)
        from 3 have "dios \<noteq> []" "length data \<le> byte_pos + 2" by simp_all
        then have "read_samples (Suc m) data dios adcs (byte_pos + 2) (samples @ [s]) = Inl IndexError"
          by (rule read_samples_past)
        with 3 Suc show ?thesis by simp
      qed
    qed
  qed
qed

lemma parse_samples_eq:
  assumes "3 \<le> length data"
  shows "parse_samples data =
           read_samples (ord (data ! 0)) data (digital_lines data) (analog_lines data) 3 []"
  by (simp add: parse_samples_def parse_header_ok [OF assms])

lemma parse_samples_header_short:
  assumes "length data < 3"
  shows "parse_samples data = Inl IndexError"
  by (simp add: parse_samples_def parse_header_short [OF assms])

lemma record_size_eq:
  "record_size data = (if digital_lines data = [] then 0 else 2) + 2 * length (analog_lines data)"
  by (simp add: record_size_def digital_size_def)

lemma parse_samples_short:
  assumes "3 \<le> length data" "length data < 3 + ord (data ! 0) * record_size data"
  shows "parse_samples data = Inl IndexError \<or> parse_samples data = Inl StructError \<or>
         (digital_lines data = [8] \<and> analog_lines data = [] \<and>
          Suc (length data) = 3 + 2 * ord (data ! 0) \<and>
          (\<exists>samples. parse_samples data = Inr samples \<and> length samples = ord (data ! 0)))"
  using read_samples_short [OF record_size_eq assms(2,1) digital_lines_shape
      digital_lines_small analog_lines_small analog_lines_distinct, of "[]"]
  by (simp add: parse_samples_eq [OF assms(1)])


lemma parse_samples_full:
  assumes "3 + ord (data ! 0) * record_size data \<le> length data"
  shows "\<exists>samples. parse_samples data = Inr samples \<and> length samples = ord (data ! 0) \<and>
           (\<forall>i<ord (data ! 0).
              read_sample data (digital_lines data) (analog_lines data)
                (3 + i * record_size data) = Inr (samples ! i, 3 + Suc i * record_size data))"
proof -
  from assms have 3: "3 \<le> length data" by simp
  from read_samples_full [OF record_size_eq assms digital_lines_small analog_lines_small
      analog_lines_distinct, of "[]"]
  show ?thesis by (simp add: parse_samples_eq [OF 3])
qed

lemma record_at:
  assumes "read_sample data (digital_lines data) (analog_lines data) byte_pos =
             Inr (s, byte_pos + record_size data)"
    and "byte_pos + record_size data \<le> length data"
  shows "dom s = dio_key ` set (digital_lines data) \<union> adc_key ` set (analog_lines data)"
    and "\<forall>n\<in>set (digital_lines data). s (dio_key n) = Some (PyBool (digital_reading data byte_pos n))"
    and "\<forall>j<length (analog_lines data). s (adc_key (analog_lines data ! j)) =
            Some (PyInt (analog_reading data (byte_pos + digital_size data + 2 * j)))"
proof -
  from assms(2)
  have "byte_pos + (if digital_lines data = [] then 0 else 2) + 2 * length (analog_lines data)
          \<le> length data"
    by (simp add: record_size_eq)
  from read_sample_full [OF this digital_lines_small analog_lines_small analog_lines_distinct]
    assms(1)
  show "dom s = dio_key ` set (digital_lines data) \<union> adc_key ` set (analog_lines data)"
    and "\<forall>n\<in>set (digital_lines data). s (dio_key n) = Some (PyBool (digital_reading data byte_pos n))"
    and "\<forall>j<length (analog_lines data). s (adc_key (analog_lines data ! j)) =
            Some (PyInt (analog_reading data (byte_pos + digital_size data + 2 * j)))"
    by (auto simp: digital_size_def)
qed

subsection \<open>Integers stored in a sample\<close>





subsection \<open>Evaluation on concrete payloads\<close>

lemma upt_8: "[0..<8] = [0, 1, 2, 3, 4, 5, 6, 7]"
  by code_simp

lemma upt_6: "[0..<6] = [0, 1, 2, 3, 4, 5]"
  by code_simp

lemma ords: "ord (CHR 0x00) = 0" "ord (CHR 0x01) = 1" "ord (CHR 0x02) = 2" "ord (CHR 0x08) = 8" "ord (CHR 0xFF) = 255"
  by (simp_all add: ord_def)

lemma example_lines:
  "digital_lines [CHR 0x01, CHR 0x02, CHR 0x08, CHR 0x00, CHR 0x08, CHR 0xFF, CHR 0xFF] = [3]"
  "analog_lines [CHR 0x01, CHR 0x02, CHR 0x08, CHR 0x00, CHR 0x08, CHR 0xFF, CHR 0xFF] = [0]"
  by (simp_all add: digital_lines_def analog_lines_def ords upt_8 upt_6 bit_Suc_0_iff)

lemma example_samples:
  "parse_samples [CHR 0x01, CHR 0x02, CHR 0x08, CHR 0x00, CHR 0x08, CHR 0xFF, CHR 0xFF] =
     Inr [[''dio-3'' \<mapsto> PyBool True, ''adc-0'' \<mapsto> PyInt 1023]]"
  by (simp add: parse_samples_eq example_lines ords read_sample_def subrange_def getitem_def
        format_d.simps unpack_h_def)

subsection \<open>Payloads that hold all their records\<close>

text \<open>
  The samples the decoder returns from a payload that holds all its records.
\<close>

lemma parse_samples_complete:
  assumes "3 + ord (data ! 0) * record_size data \<le> length data"
  shows "\<exists>samples. parse_samples data = Inr samples \<and>
           (\<forall>i<ord (data ! 0).
              read_sample data (digital_lines data) (analog_lines data)
                (3 + i * record_size data) = Inr (samples ! i, 3 + Suc i * record_size data) \<and>
              (\<forall>n\<in>set (digital_lines data).
                 (samples ! i) (dio_key n) =
                   Some (PyBool (digital_reading data (3 + i * record_size data) n))) \<and>
              (\<forall>j<length (analog_lines data).
                 (samples ! i) (adc_key (analog_lines data ! j)) =
                   Some (PyInt (analog_reading data
                                  (3 + i * record_size data + digital_size data + 2 * j)))))"
proof -
  from parse_samples_full [OF assms] obtain samples where
    res: "parse_samples data = Inr samples"
    and each: "\<And>i. i < ord (data ! 0) \<Longrightarrow>
                 read_sample data (digital_lines data) (analog_lines data)
                   (3 + i * record_size data) = Inr (samples ! i, 3 + Suc i * record_size data)"
    by blast
  have "read_sample data (digital_lines data) (analog_lines data)
          (3 + i * record_size data) = Inr (samples ! i, 3 + Suc i * record_size data) \<and>
        (\<forall>n\<in>set (digital_lines data).
           (samples ! i) (dio_key n) =
             Some (PyBool (digital_reading data (3 + i * record_size data) n))) \<and>
        (\<forall>j<length (analog_lines data).
           (samples ! i) (adc_key (analog_lines data ! j)) =
             Some (PyInt (analog_reading data
                            (3 + i * record_size data + digital_size data + 2 * j))))"
    if i: "i < ord (data ! 0)" for i
  proof -
    from i have "Suc i * record_size data \<le> ord (data ! 0) * record_size data"
      by (intro mult_le_mono1) simp
    with assms have fits: "(3 + i * record_size data) + record_size data \<le> length data"
      by simp
    from each [OF i]
    have rec: "read_sample data (digital_lines data) (analog_lines data) (3 + i * record_size data) =
            Inr (samples ! i, (3 + i * record_size data) + record_size data)"
      by (simp add: add.assoc add.commute)
    from each [OF i] record_at(2) [OF rec fits] record_at(3) [OF rec fits]
    show ?thesis by (intro conjI)
  qed
  then have "\<forall>i<ord (data ! 0).
        read_sample data (digital_lines data) (analog_lines data)
          (3 + i * record_size data) = Inr (samples ! i, 3 + Suc i * record_size data) \<and>
        (\<forall>n\<in>set (digital_lines data).
           (samples ! i) (dio_key n) =
             Some (PyBool (digital_reading data (3 + i * record_size data) n))) \<and>
        (\<forall>j<length (analog_lines data).
           (samples ! i) (adc_key (analog_lines data ! j)) =
             Some (PyInt (analog_reading data
                            (3 + i * record_size data + digital_size data + 2 * j))))"
    by (intro allI impI)
  with res show ?thesis by (intro exI conjI)
qed

subsection \<open>What a returned sample holds\<close>

text \<open>
  Whatever the lengths are, the loops assign one boolean per enabled digital line and one
  integer per enabled analog line, and nothing else.
\<close>

lemma read_dio_entries:
  assumes "read_dio vs dios sample = Inr s"
  shows "dom s = dom sample \<union> dio_key ` set dios \<and>
         (\<forall>n\<in>set dios. \<exists>b. s (dio_key n) = Some (PyBool b)) \<and>
         (\<forall>k. k \<notin> dio_key ` set dios \<longrightarrow> s k = sample k)"
  using assms
proof (induction dios arbitrary: sample)
  case Nil
  then show ?case by simp
next
  case (Cons dio dios)
  from Cons.prems obtain b where
    rest: "read_dio vs dios (sample(dio_key dio \<mapsto> PyBool b)) = Inr s"
    by (auto split: if_splits sum.splits)
  note ih = Cons.IH [OF rest]
  have "dom s = dom sample \<union> dio_key ` set (dio # dios)"
    using ih by auto
  moreover have "\<exists>b. s (dio_key n) = Some (PyBool b)" if "n \<in> set (dio # dios)" for n
  proof (cases "n \<in> set dios")
    case True
    with ih show ?thesis by blast
  next
    case False
    with that have n: "n = dio" by simp
    show ?thesis
    proof (cases "dio_key dio \<in> dio_key ` set dios")
      case True
      then obtain m where "m \<in> set dios" "dio_key m = dio_key dio" by auto
      with ih n show ?thesis by metis
    next
      case False
      with ih have "s (dio_key dio) = (sample(dio_key dio \<mapsto> PyBool b)) (dio_key dio)"
        by blast
      with n show ?thesis by simp
    qed
  qed
  moreover have "s k = sample k" if "k \<notin> dio_key ` set (dio # dios)" for k
  proof -
    from that have "k \<notin> dio_key ` set dios" "k \<noteq> dio_key dio" by auto
    with ih show ?thesis by simp
  qed
  ultimately show ?case by blast
qed

lemma read_adc_entries:
  assumes "read_adc data adcs byte_pos sample = Inr (s, byte_pos')"
  shows "dom s = dom sample \<union> adc_key ` set adcs \<and>
         (\<forall>n\<in>set adcs. \<exists>v. s (adc_key n) = Some (PyInt v)) \<and>
         (\<forall>k. k \<notin> adc_key ` set adcs \<longrightarrow> s k = sample k)"
  using assms
proof (induction adcs arbitrary: byte_pos sample)
  case Nil
  then show ?case by simp
next
  case (Cons adc adcs)
  from Cons.prems obtain w where
    rest: "read_adc data adcs (byte_pos + 2) (sample(adc_key adc \<mapsto> PyInt w)) = Inr (s, byte_pos')"
    by (auto split: sum.splits)
  note ih = Cons.IH [OF rest]
  have "dom s = dom sample \<union> adc_key ` set (adc # adcs)"
    using ih by auto
  moreover have "\<exists>v. s (adc_key n) = Some (PyInt v)" if "n \<in> set (adc # adcs)" for n
  proof (cases "n \<in> set adcs")
    case True
    with ih show ?thesis by blast
  next
    case False
    with that have n: "n = adc" by simp
    show ?thesis
    proof (cases "adc_key adc \<in> adc_key ` set adcs")
      case True
      then obtain m where "m \<in> set adcs" "adc_key m = adc_key adc" by auto
      with ih n show ?thesis by metis
    next
      case False
      with ih have "s (adc_key adc) = (sample(adc_key adc \<mapsto> PyInt w)) (adc_key adc)"
        by blast
      with n show ?thesis by simp
    qed
  qed
  moreover have "s k = sample k" if "k \<notin> adc_key ` set (adc # adcs)" for k
  proof -
    from that have "k \<notin> adc_key ` set adcs" "k \<noteq> adc_key adc" by auto
    with ih show ?thesis by simp
  qed
  ultimately show ?case by blast
qed

lemma read_sample_entries:
  assumes "read_sample data dios adcs byte_pos = Inr (s, byte_pos')"
  shows "dom s = dio_key ` set dios \<union> adc_key ` set adcs \<and>
         (\<forall>n\<in>set dios. \<exists>b. s (dio_key n) = Some (PyBool b)) \<and>
         (\<forall>n\<in>set adcs. \<exists>v. s (adc_key n) = Some (PyInt v))"
proof -
  from assms obtain s1 p vs where
    dio: "if dios \<noteq> [] then read_dio vs dios Map.empty = Inr s1 else s1 = Map.empty"
    and adc: "read_adc data adcs p s1 = Inr (s, byte_pos')"
    by (cases "read_dio (subrange data byte_pos (byte_pos + 2)) dios Map.empty"; cases adcs)
       (auto simp: read_sample_def split: if_splits)
  from dio have d: "dom s1 = dio_key ` set dios"
    "\<forall>n\<in>set dios. \<exists>b. s1 (dio_key n) = Some (PyBool b)"
    using read_dio_entries [of vs dios Map.empty s1] by (auto split: if_splits)
  note a = read_adc_entries [OF adc]
  have "dom s = dio_key ` set dios \<union> adc_key ` set adcs"
    using a d(1) by simp
  moreover have "\<exists>b. s (dio_key n) = Some (PyBool b)" if "n \<in> set dios" for n
  proof -
    have "dio_key n \<notin> adc_key ` set adcs" by auto
    with a have "s (dio_key n) = s1 (dio_key n)" by blast
    with d(2) that show ?thesis by simp
  qed
  ultimately show ?thesis using a by blast
qed

lemma read_samples_entries:
  assumes "read_samples n data dios adcs byte_pos samples = Inr out"
  shows "\<exists>ss. out = samples @ ss \<and> length ss = n \<and>
           (\<forall>s\<in>set ss. dom s = dio_key ` set dios \<union> adc_key ` set adcs \<and>
              (\<forall>n\<in>set dios. \<exists>b. s (dio_key n) = Some (PyBool b)) \<and>
              (\<forall>n\<in>set adcs. \<exists>v. s (adc_key n) = Some (PyInt v)))"
  using assms
proof (induction n arbitrary: byte_pos samples)
  case 0
  then show ?case by simp
next
  case (Suc n)
  from Suc.prems obtain s p where
    s: "read_sample data dios adcs byte_pos = Inr (s, p)"
    and rest: "read_samples n data dios adcs p (samples @ [s]) = Inr out"
    by (auto split: sum.splits)
  from Suc.IH [OF rest] obtain ss where
    ss: "out = (samples @ [s]) @ ss" "length ss = n"
    "\<forall>s\<in>set ss. dom s = dio_key ` set dios \<union> adc_key ` set adcs \<and>
              (\<forall>n\<in>set dios. \<exists>b. s (dio_key n) = Some (PyBool b)) \<and>
              (\<forall>n\<in>set adcs. \<exists>v. s (adc_key n) = Some (PyInt v))"
    by blast
  from ss(1,2) have "out = samples @ (s # ss)" "length (s # ss) = Suc n" by simp_all
  moreover from read_sample_entries [OF s] ss(3)
  have "\<forall>s\<in>set (s # ss). dom s = dio_key ` set dios \<union> adc_key ` set adcs \<and>
              (\<forall>n\<in>set dios. \<exists>b. s (dio_key n) = Some (PyBool b)) \<and>
              (\<forall>n\<in>set adcs. \<exists>v. s (adc_key n) = Some (PyInt v))"
    by simp
  ultimately show ?case by blast
qed

lemma parse_samples_entries:
  assumes "parse_samples data = Inr samples"
  shows "length samples = ord (data ! 0) \<and>
         (\<forall>s\<in>set samples.
            dom s = dio_key ` set (digital_lines data) \<union> adc_key ` set (analog_lines data) \<and>
            card (dom s) = length (digital_lines data) + length (analog_lines data) \<and>
            (\<forall>n\<in>set (digital_lines data). \<exists>b. s (dio_key n) = Some (PyBool b)) \<and>
            (\<forall>n\<in>set (analog_lines data). \<exists>v. s (adc_key n) = Some (PyInt v)))"
proof -
  from assms have "3 \<le> length data"
    using parse_samples_header_short [of data] by (cases "3 \<le> length data") simp_all
  with assms
  have "read_samples (ord (data ! 0)) data (digital_lines data) (analog_lines data) 3 [] =
          Inr samples"
    by (simp add: parse_samples_eq)
  from read_samples_entries [OF this] card_keys [of data] show ?thesis
    by auto
qed

text \<open>
  Claim C2. Let the first byte of the payload be \<open>N\<close>. When the payload holds the three
  header bytes and \<open>N\<close> records of the size its mask bytes declare, the decoder returns \<open>N\<close>
  samples; sample \<open>i\<close> is read from the record at offset \<open>3 + i * record_size\<close>, and
  reading it leaves the position at the next record: each record takes two bytes if a
  digital line is enabled plus two bytes per enabled analog line. A digital entry is the
  state of the line's bit in the two digital bytes of the record, and the entry of the
  \<open>j\<close>-th enabled analog line, in ascending order, is the reading of the \<open>j\<close>-th pair of
  bytes after them. And whatever the payload is, a sequence the decoder returns has
  exactly \<open>N\<close> samples, and the keys of each are the keys \<^verbatim>\<open>dio-n\<close> of the enabled digital
  lines, with a boolean value, and the keys \<^verbatim>\<open>adc-n\<close> of the enabled analog lines, with an
  integer value: one entry per enabled line and no other.
\<close>

theorem parse_samples_records:
  "(3 + ord (data ! 0) * record_size data \<le> length data \<longrightarrow>
      (\<exists>samples. parse_samples data = Inr samples \<and>
         (\<forall>i<ord (data ! 0).
            read_sample data (digital_lines data) (analog_lines data)
              (3 + i * record_size data) = Inr (samples ! i, 3 + Suc i * record_size data) \<and>
            (\<forall>n\<in>set (digital_lines data).
               (samples ! i) (dio_key n) =
                 Some (PyBool (digital_reading data (3 + i * record_size data) n))) \<and>
            (\<forall>j<length (analog_lines data).
               (samples ! i) (adc_key (analog_lines data ! j)) =
                 Some (PyInt (analog_reading data
                                (3 + i * record_size data + digital_size data + 2 * j))))))) \<and>
   (\<forall>samples. parse_samples data = Inr samples \<longrightarrow>
      length samples = ord (data ! 0) \<and>
      (\<forall>s\<in>set samples.
         dom s = dio_key ` set (digital_lines data) \<union> adc_key ` set (analog_lines data) \<and>
         card (dom s) = length (digital_lines data) + length (analog_lines data) \<and>
         (\<forall>n\<in>set (digital_lines data). \<exists>b. s (dio_key n) = Some (PyBool b)) \<and>
         (\<forall>n\<in>set (analog_lines data). \<exists>v. s (adc_key n) = Some (PyInt v))))"
proof (intro conjI impI allI)
  assume "3 + ord (data ! 0) * record_size data \<le> length data"
  then show "\<exists>samples. parse_samples data = Inr samples \<and>
         (\<forall>i<ord (data ! 0).
            read_sample data (digital_lines data) (analog_lines data)
              (3 + i * record_size data) = Inr (samples ! i, 3 + Suc i * record_size data) \<and>
            (\<forall>n\<in>set (digital_lines data).
               (samples ! i) (dio_key n) =
                 Some (PyBool (digital_reading data (3 + i * record_size data) n))) \<and>
            (\<forall>j<length (analog_lines data).
               (samples ! i) (adc_key (analog_lines data ! j)) =
                 Some (PyInt (analog_reading data
                                (3 + i * record_size data + digital_size data + 2 * j)))))"
    by (rule parse_samples_complete)
next
  fix samples
  assume res: "parse_samples data = Inr samples"
  from parse_samples_entries [OF res] show "length samples = ord (data ! 0)"
    by (rule conjunct1)
  from parse_samples_entries [OF res]
  show "\<forall>s\<in>set samples.
         dom s = dio_key ` set (digital_lines data) \<union> adc_key ` set (analog_lines data) \<and>
         card (dom s) = length (digital_lines data) + length (analog_lines data) \<and>
         (\<forall>n\<in>set (digital_lines data). \<exists>b. s (dio_key n) = Some (PyBool b)) \<and>
         (\<forall>n\<in>set (analog_lines data). \<exists>v. s (adc_key n) = Some (PyInt v))"
    by (rule conjunct2)
qed

text \<open>
  The theorem at the payload \<^verbatim>\<open>01 02 08 00 08 FF FF\<close>: one sample, digital line 3 and
  analog line 0 enabled, a record of four bytes.
\<close>

theorem parse_samples_records_witness:
  "3 + ord ([CHR 0x01, CHR 0x02, CHR 0x08, CHR 0x00, CHR 0x08, CHR 0xFF, CHR 0xFF] ! 0) *
       record_size [CHR 0x01, CHR 0x02, CHR 0x08, CHR 0x00, CHR 0x08, CHR 0xFF, CHR 0xFF]
     \<le> length [CHR 0x01, CHR 0x02, CHR 0x08, CHR 0x00, CHR 0x08, CHR 0xFF, CHR 0xFF] \<and>
   parse_samples [CHR 0x01, CHR 0x02, CHR 0x08, CHR 0x00, CHR 0x08, CHR 0xFF, CHR 0xFF] =
     Inr [[''dio-3'' \<mapsto> PyBool True, ''adc-0'' \<mapsto> PyInt 1023]] \<and>
   card (dom [''dio-3'' \<mapsto> PyBool True, ''adc-0'' \<mapsto> PyInt 1023]) = 2 \<and>
   digital_reading [CHR 0x01, CHR 0x02, CHR 0x08, CHR 0x00, CHR 0x08, CHR 0xFF, CHR 0xFF] 3 3"
proof -
  let ?data = "[CHR 0x01, CHR 0x02, CHR 0x08, CHR 0x00, CHR 0x08, CHR 0xFF, CHR 0xFF]"
  let ?sample = "[''dio-3'' \<mapsto> PyBool True, ''adc-0'' \<mapsto> PyInt 1023]"
  note records = parse_samples_records [of ?data]
  have size: "record_size ?data = 4"
    by (simp add: record_size_def digital_size_def example_lines)
  have fits: "3 + ord (?data ! 0) * record_size ?data \<le> length ?data"
    by (simp add: size ords)
  from records [THEN conjunct1, THEN mp, OF fits] obtain samples where
    res: "parse_samples ?data = Inr samples"
    and each: "\<forall>i<ord (?data ! 0).
        read_sample ?data (digital_lines ?data) (analog_lines ?data)
          (3 + i * record_size ?data) = Inr (samples ! i, 3 + Suc i * record_size ?data) \<and>
        (\<forall>n\<in>set (digital_lines ?data).
           (samples ! i) (dio_key n) =
             Some (PyBool (digital_reading ?data (3 + i * record_size ?data) n))) \<and>
        (\<forall>j<length (analog_lines ?data).
           (samples ! i) (adc_key (analog_lines ?data ! j)) =
             Some (PyInt (analog_reading ?data
                            (3 + i * record_size ?data + digital_size ?data + 2 * j))))"
    by (elim exE conjE)
  from res example_samples have samples: "samples = [?sample]"
    by simp
  have "0 < ord (?data ! 0)" by (simp add: ords)
  with each have "\<forall>n\<in>set (digital_lines ?data).
           (samples ! 0) (dio_key n) =
             Some (PyBool (digital_reading ?data (3 + 0 * record_size ?data) n))"
    by blast
  then have "?sample (dio_key 3) = Some (PyBool (digital_reading ?data 3 3))"
    by (simp add: samples example_lines)
  then have reading: "digital_reading ?data 3 3"
    by (simp add: format_d.simps)
  have "?sample \<in> set [?sample]" by simp
  from records [THEN conjunct2, rule_format, OF example_samples, THEN conjunct2, rule_format,
      OF this, THEN conjunct2, THEN conjunct1]
  have "card (dom ?sample) = length (digital_lines ?data) + length (analog_lines ?data)" .
  then have card: "card (dom ?sample) = 2"
    by (simp only: example_lines) simp
  from fits example_samples card reading show ?thesis
    by (intro conjI)
qed

subsection \<open>Analog readings\<close>



subsection \<open>Payloads that end before their records do\<close>

text \<open>
  Claim C4, as stated, fails. The payload \<^verbatim>\<open>01 01 00 01\<close> declares one sample with digital
  line 8 enabled, hence a record of two bytes, and holds one byte of it. The decoder
  returns one sample, read from that byte.
\<close>

theorem parse_samples_silent_truncation:
  "3 \<le> length [CHR 0x01, CHR 0x01, CHR 0x00, CHR 0x01] \<and>
   length [CHR 0x01, CHR 0x01, CHR 0x00, CHR 0x01] <
     3 + ord ([CHR 0x01, CHR 0x01, CHR 0x00, CHR 0x01] ! 0) *
         record_size [CHR 0x01, CHR 0x01, CHR 0x00, CHR 0x01] \<and>
   parse_samples [CHR 0x01, CHR 0x01, CHR 0x00, CHR 0x01] = Inr [[''dio-8'' \<mapsto> PyBool True]]"
  by (simp add: parse_samples_eq record_size_def digital_size_def digital_lines_def
        analog_lines_def ords upt_8 upt_6 bit_Suc_0_iff
        read_sample_def subrange_def getitem_def format_d.simps)

text \<open>
  When digital line 8 is the only enabled line, a record is read from its first byte
  alone: the slice of two bytes may hold one byte only, and only \<^verbatim>\<open>values[0]\<close> is indexed.
\<close>

lemma read_sample_dio8:
  assumes "byte_pos < length data"
  shows "read_sample data [8] [] byte_pos =
           Inr ([dio_key 8 \<mapsto> PyBool (bit (ord (data ! byte_pos)) 0)], byte_pos + 2)"
proof -
  from assms have "getitem (subrange data byte_pos (byte_pos + 2)) 0 = Inr (data ! byte_pos)"
    by (simp add: getitem_def subrange_def)
  then show ?thesis
    unfolding read_sample_def read_dio.simps and_pow_bit by simp
qed

lemma read_samples_dio8:
  assumes "byte_pos + 2 * n \<le> Suc (length data)"
  shows "read_samples n data [8] [] byte_pos samples =
           Inr (samples @
                map (\<lambda>i. [dio_key 8 \<mapsto> PyBool (bit (ord (data ! (byte_pos + 2 * i))) 0)])
                  [0..<n])"
  using assms
proof (induction n arbitrary: byte_pos samples)
  case 0
  then show ?case by simp
next
  case (Suc n)
  from Suc.prems have here: "byte_pos < length data"
    and rest: "(byte_pos + 2) + 2 * n \<le> Suc (length data)" by simp_all
  have "read_samples (Suc n) data [8] [] byte_pos samples =
          read_samples n data [8] [] (byte_pos + 2)
            (samples @ [[dio_key 8 \<mapsto> PyBool (bit (ord (data ! byte_pos)) 0)]])"
    unfolding read_samples.simps read_sample_dio8 [OF here] by simp
  also have "\<dots> = Inr ((samples @ [[dio_key 8 \<mapsto> PyBool (bit (ord (data ! byte_pos)) 0)]]) @
                map (\<lambda>i. [dio_key 8 \<mapsto> PyBool (bit (ord (data ! ((byte_pos + 2) + 2 * i))) 0)])
                  [0..<n])"
    using rest by (rule Suc.IH)
  also have "\<dots> = Inr (samples @
                map (\<lambda>i. [dio_key 8 \<mapsto> PyBool (bit (ord (data ! (byte_pos + 2 * i))) 0)])
                  [0..<Suc n])"
    unfolding map_upt_Suc by (simp add: add.assoc)
  finally show ?case .
qed

lemma parse_samples_dio8:
  assumes "3 \<le> length data" and lines: "digital_lines data = [8]" "analog_lines data = []"
    and len: "Suc (length data) = 3 + 2 * ord (data ! 0)"
  shows "parse_samples data =
           Inr (map (\<lambda>i. [dio_key 8 \<mapsto> PyBool (bit (ord (data ! (3 + 2 * i))) 0)])
                  [0..<ord (data ! 0)])"
proof -
  from len have fits: "3 + 2 * ord (data ! 0) \<le> Suc (length data)" by simp
  have "parse_samples data =
          read_samples (ord (data ! 0)) data (digital_lines data) (analog_lines data) 3 []"
    using assms(1) by (rule parse_samples_eq)
  also have "\<dots> = read_samples (ord (data ! 0)) data [8] [] 3 []"
    by (simp only: lines)
  also have "\<dots> = Inr ([] @ map (\<lambda>i. [dio_key 8 \<mapsto> PyBool (bit (ord (data ! (3 + 2 * i))) 0)])
                  [0..<ord (data ! 0)])"
    using fits by (rule read_samples_dio8)
  finally show ?thesis
    by (simp only: append_Nil)
qed

text \<open>
  Claim C4, as amended. The decoder checks no length. For a payload that holds the three
  header bytes and whose record area is shorter than \<open>N\<close> times the record size, it never
  fails with the \<^verbatim>\<open>ValueError\<close> of a truncated response. When digital line 8 is the only
  enabled line and exactly one byte is missing, it returns \<open>N\<close> samples: sample \<open>i\<close> holds
  the one key \<^verbatim>\<open>dio-8\<close>, whose value is bit 0 of the byte at offset \<open>3 + 2 * i\<close>, and for the
  last sample that byte is the last byte of the payload, the single byte that remains of
  its record. In every other case the decoder raises \<^verbatim>\<open>IndexError\<close> (a digital byte is
  indexed past the end) or \<^verbatim>\<open>struct.error\<close> (an analog pair is cut short).
\<close>

theorem parse_samples_truncated:
  assumes "3 \<le> length data" and "length data < 3 + ord (data ! 0) * record_size data"
  shows "parse_samples data \<noteq> Inl Truncated \<and>
         (if digital_lines data = [8] \<and> analog_lines data = [] \<and>
             Suc (length data) = 3 + 2 * ord (data ! 0)
          then \<exists>samples. parse_samples data = Inr samples \<and> length samples = ord (data ! 0) \<and>
                 (\<forall>i<ord (data ! 0).
                    3 + 2 * i < length data \<and>
                    samples ! i = [dio_key 8 \<mapsto> PyBool (bit (ord (data ! (3 + 2 * i))) 0)]) \<and>
                 3 + 2 * (ord (data ! 0) - 1) = length data - 1
          else parse_samples data = Inl IndexError \<or> parse_samples data = Inl StructError)"
proof (cases "digital_lines data = [8] \<and> analog_lines data = [] \<and>
              Suc (length data) = 3 + 2 * ord (data ! 0)")
  case False
  from parse_samples_short [OF assms]
  have err: "parse_samples data = Inl IndexError \<or> parse_samples data = Inl StructError"
  proof (elim disjE conjE)
    assume "parse_samples data = Inl IndexError"
    then show ?thesis by (rule disjI1)
  next
    assume "parse_samples data = Inl StructError"
    then show ?thesis by (rule disjI2)
  next
    assume "digital_lines data = [8]" "analog_lines data = []"
      "Suc (length data) = 3 + 2 * ord (data ! 0)"
    then have "digital_lines data = [8] \<and> analog_lines data = [] \<and>
               Suc (length data) = 3 + 2 * ord (data ! 0)"
      by (intro conjI)
    with False show ?thesis by (rule notE)
  qed
  then have "parse_samples data \<noteq> Inl Truncated"
    by (elim disjE) simp_all
  with err show ?thesis
    unfolding if_not_P [OF False] by (intro conjI)
next
  case True
  let ?f = "\<lambda>i. [dio_key 8 \<mapsto> PyBool (bit (ord (data ! (3 + 2 * i))) 0)]"
  let ?samples = "map ?f [0..<ord (data ! 0)]"
  from True have lines: "digital_lines data = [8]" "analog_lines data = []"
    and len: "Suc (length data) = 3 + 2 * ord (data ! 0)" by simp_all
  from assms(1) lines len have res: "parse_samples data = Inr ?samples"
    by (rule parse_samples_dio8)
  have size: "length ?samples = ord (data ! 0)" by simp
  have each: "\<forall>i<ord (data ! 0). 3 + 2 * i < length data \<and> ?samples ! i = ?f i"
  proof (intro allI impI conjI)
    fix i
    assume i: "i < ord (data ! 0)"
    with len show "3 + 2 * i < length data" by simp
    from i show "?samples ! i = ?f i" by simp
  qed
  from len assms(1) have final: "3 + 2 * (ord (data ! 0) - 1) = length data - 1"
    by simp
  have "\<exists>samples. parse_samples data = Inr samples \<and> length samples = ord (data ! 0) \<and>
                 (\<forall>i<ord (data ! 0). 3 + 2 * i < length data \<and> samples ! i = ?f i) \<and>
                 3 + 2 * (ord (data ! 0) - 1) = length data - 1"
  proof (intro exI [where x = ?samples] conjI)
    show "parse_samples data = Inr ?samples" by (rule res)
    show "length ?samples = ord (data ! 0)" by (rule size)
    show "\<forall>i<ord (data ! 0). 3 + 2 * i < length data \<and> ?samples ! i = ?f i" by (rule each)
    show "3 + 2 * (ord (data ! 0) - 1) = length data - 1" by (rule final)
  qed
  moreover from res have "parse_samples data \<noteq> Inl Truncated" by simp
  ultimately show ?thesis
    unfolding if_P [OF True] by (intro conjI)
qed

text \<open>
  The theorem at two payloads. \<^verbatim>\<open>02 01 00 00 00 01\<close> declares two samples with digital line
  8 alone and holds three of their four bytes: the decoder returns two samples, the
  second read from the last byte. In \<^verbatim>\<open>01 02 00 01\<close> analog line 0 is enabled and one byte
  of its pair is missing: the decoder raises \<^verbatim>\<open>struct.error\<close>.
\<close>

theorem parse_samples_truncated_witness:
  "length [CHR 0x02, CHR 0x01, CHR 0x00, CHR 0x00, CHR 0x00, CHR 0x01] <
     3 + ord ([CHR 0x02, CHR 0x01, CHR 0x00, CHR 0x00, CHR 0x00, CHR 0x01] ! 0) *
         record_size [CHR 0x02, CHR 0x01, CHR 0x00, CHR 0x00, CHR 0x00, CHR 0x01] \<and>
   parse_samples [CHR 0x02, CHR 0x01, CHR 0x00, CHR 0x00, CHR 0x00, CHR 0x01] =
     Inr [[''dio-8'' \<mapsto> PyBool False], [''dio-8'' \<mapsto> PyBool True]] \<and>
   length [CHR 0x01, CHR 0x02, CHR 0x00, CHR 0x01] <
     3 + ord ([CHR 0x01, CHR 0x02, CHR 0x00, CHR 0x01] ! 0) *
         record_size [CHR 0x01, CHR 0x02, CHR 0x00, CHR 0x01] \<and>
   parse_samples [CHR 0x01, CHR 0x02, CHR 0x00, CHR 0x01] = Inl StructError"
proof -
  let ?cut = "[CHR 0x02, CHR 0x01, CHR 0x00, CHR 0x00, CHR 0x00, CHR 0x01]"
  have cut_lines: "digital_lines ?cut = [8]" "analog_lines ?cut = []"
    by (simp_all add: digital_lines_def analog_lines_def ords upt_8 upt_6 bit_Suc_0_iff)
  have c1: "3 \<le> length ?cut" by simp
  have c2: "length ?cut < 3 + ord (?cut ! 0) * record_size ?cut"
    by (simp add: record_size_def digital_size_def cut_lines ords)
  have c3: "digital_lines ?cut = [8] \<and> analog_lines ?cut = [] \<and>
            Suc (length ?cut) = 3 + 2 * ord (?cut ! 0)"
    by (simp add: cut_lines ords)
  from parse_samples_truncated [OF c1 c2, THEN conjunct2] c3
  obtain samples where res: "parse_samples ?cut = Inr samples"
    and l: "length samples = ord (?cut ! 0)"
    and each: "\<forall>i<ord (?cut ! 0).
                 3 + 2 * i < length ?cut \<and>
                 samples ! i = [dio_key 8 \<mapsto> PyBool (bit (ord (?cut ! (3 + 2 * i))) 0)]"
    unfolding if_P [OF c3] by (elim exE conjE)
  from l have l2: "length samples = 2" by (simp add: ords)
  have "(0::nat) < ord (?cut ! 0)" "(1::nat) < ord (?cut ! 0)" by (simp_all add: ords)
  with each
  have "samples ! 0 = [dio_key 8 \<mapsto> PyBool (bit (ord (?cut ! (3 + 2 * 0))) 0)]"
    "samples ! 1 = [dio_key 8 \<mapsto> PyBool (bit (ord (?cut ! (3 + 2 * 1))) 0)]"
    by blast+
  then have "samples ! 0 = [''dio-8'' \<mapsto> PyBool False]" "samples ! 1 = [''dio-8'' \<mapsto> PyBool True]"
    by (simp_all add: ords format_d.simps bit_Suc_0_iff)
  with l2 have "samples = [[''dio-8'' \<mapsto> PyBool False], [''dio-8'' \<mapsto> PyBool True]]"
    by (cases samples; cases "tl samples") simp_all
  with res have cut: "parse_samples ?cut =
                        Inr [[''dio-8'' \<mapsto> PyBool False], [''dio-8'' \<mapsto> PyBool True]]"
    by simp
  let ?data = "[CHR 0x01, CHR 0x02, CHR 0x00, CHR 0x01]"
  have lines: "digital_lines ?data = []" "analog_lines ?data = [0]"
    by (simp_all add: digital_lines_def analog_lines_def ords upt_8 upt_6 bit_Suc_0_iff)
  have 1: "3 \<le> length ?data" by simp
  have 2: "length ?data < 3 + ord (?data ! 0) * record_size ?data"
    by (simp add: record_size_def digital_size_def lines ords)
  have "parse_samples ?data \<noteq> Inl IndexError"
    by (simp add: parse_samples_eq lines ords read_sample_def subrange_def unpack_h_def)
  with parse_samples_truncated [OF 1 2] lines have "parse_samples ?data = Inl StructError"
    by simp
  with c2 cut 2 show ?thesis by (intro conjI)
qed

end
